theory Spec2Isabelle
  imports Main "HOL-Library.Word" "HOL-Library.Char_ord" "HOL-Library.List_Lexorder"
    "HOL-Library.Code_Target_Nat"
begin

unbundle bit_operations_syntax

section \<open>Library primitives used by the request fingerprint\<close>

text \<open>
  Go strings and byte slices are sequences of bytes; both are modelled by \<open>string\<close>,
  whose characters are the 256 byte values.  The conversions \<open>[]byte(s)\<close> and
  \<open>string(b)\<close> of the source are therefore the identity.
\<close>

subsection \<open>SHA-256 (crypto/sha256), after FIPS 180-4\<close>

type_synonym u32 = "32 word"

definition Ch :: "u32 \<Rightarrow> u32 \<Rightarrow> u32 \<Rightarrow> u32" where
  "Ch x y z = (x AND y) XOR (NOT x AND z)"

definition Maj :: "u32 \<Rightarrow> u32 \<Rightarrow> u32 \<Rightarrow> u32" where
  "Maj x y z = (x AND y) XOR (x AND z) XOR (y AND z)"

definition bsig0 :: "u32 \<Rightarrow> u32" where
  "bsig0 x = word_rotr 2 x XOR word_rotr 13 x XOR word_rotr 22 x"

definition bsig1 :: "u32 \<Rightarrow> u32" where
  "bsig1 x = word_rotr 6 x XOR word_rotr 11 x XOR word_rotr 25 x"

definition ssig0 :: "u32 \<Rightarrow> u32" where
  "ssig0 x = word_rotr 7 x XOR word_rotr 18 x XOR drop_bit 3 x"

definition ssig1 :: "u32 \<Rightarrow> u32" where
  "ssig1 x = word_rotr 17 x XOR word_rotr 19 x XOR drop_bit 10 x"

definition sha256_K :: "u32 list" where
  "sha256_K =
    [0x428A2F98, 0x71374491, 0xB5C0FBCF, 0xE9B5DBA5, 0x3956C25B, 0x59F111F1, 0x923F82A4, 0xAB1C5ED5,
     0xD807AA98, 0x12835B01, 0x243185BE, 0x550C7DC3, 0x72BE5D74, 0x80DEB1FE, 0x9BDC06A7, 0xC19BF174,
     0xE49B69C1, 0xEFBE4786, 0x0FC19DC6, 0x240CA1CC, 0x2DE92C6F, 0x4A7484AA, 0x5CB0A9DC, 0x76F988DA,
     0x983E5152, 0xA831C66D, 0xB00327C8, 0xBF597FC7, 0xC6E00BF3, 0xD5A79147, 0x06CA6351, 0x14292967,
     0x27B70A85, 0x2E1B2138, 0x4D2C6DFC, 0x53380D13, 0x650A7354, 0x766A0ABB, 0x81C2C92E, 0x92722C85,
     0xA2BFE8A1, 0xA81A664B, 0xC24B8B70, 0xC76C51A3, 0xD192E819, 0xD6990624, 0xF40E3585, 0x106AA070,
     0x19A4C116, 0x1E376C08, 0x2748774C, 0x34B0BCB5, 0x391C0CB3, 0x4ED8AA4A, 0x5B9CCA4F, 0x682E6FF3,
     0x748F82EE, 0x78A5636F, 0x84C87814, 0x8CC70208, 0x90BEFFFA, 0xA4506CEB, 0xBEF9A3F7, 0xC67178F2]"

definition sha256_H0 :: "u32 list" where
  "sha256_H0 =
    [0x6A09E667, 0xBB67AE85, 0x3C6EF372, 0xA54FF53A, 0x510E527F, 0x9B05688C, 0x1F83D9AB, 0x5BE0CD19]"

text \<open>Padding: a 1 bit, zeros up to 56 modulo 64 bytes, then the bit length as 64 bits, big-endian.\<close>

definition be_bytes :: "nat \<Rightarrow> nat \<Rightarrow> nat list" where
  "be_bytes k n = map (\<lambda>i. (n div 256 ^ (k - 1 - i)) mod 256) [0..<k]"

definition sha256_pad :: "nat list \<Rightarrow> nat list" where
  "sha256_pad msg =
     msg @ [128] @ replicate ((119 - length msg mod 64) mod 64) 0
         @ be_bytes 8 ((8 * length msg) mod 2 ^ 64)"

fun be_words :: "nat list \<Rightarrow> u32 list" where
  "be_words (a # b # c # d # rest) =
     word_of_nat (((a * 256 + b) * 256 + c) * 256 + d) # be_words rest"
| "be_words _ = []"

fun blocks16 :: "nat \<Rightarrow> u32 list \<Rightarrow> u32 list list" where
  "blocks16 0 ws = []"
| "blocks16 (Suc n) ws = take 16 ws # blocks16 n (drop 16 ws)"

fun schedule :: "nat \<Rightarrow> u32 list \<Rightarrow> u32 list" where
  "schedule 0 w = w"
| "schedule (Suc n) w =
     schedule n (w @ [ssig1 (w ! (length w - 2)) + w ! (length w - 7)
                      + ssig0 (w ! (length w - 15)) + w ! (length w - 16)])"

fun sha256_round :: "u32 list \<Rightarrow> u32 \<times> u32 \<Rightarrow> u32 list" where
  "sha256_round [a, b, c, d, e, f, g, h] (k, w) =
     (let t1 = h + bsig1 e + Ch e f g + k + w;
          t2 = bsig0 a + Maj a b c
      in [t1 + t2, a, b, c, d + t1, e, f, g])"
| "sha256_round s _ = s"

definition sha256_block :: "u32 list \<Rightarrow> u32 list \<Rightarrow> u32 list" where
  "sha256_block hs blk =
     map2 (+) hs (foldl sha256_round hs (zip sha256_K (schedule 48 blk)))"

definition sha256_words :: "nat list \<Rightarrow> u32 list" where
  "sha256_words msg =
     (let p = be_words (sha256_pad msg)
      in foldl sha256_block sha256_H0 (blocks16 (length p div 16) p))"

definition sha256 :: "string \<Rightarrow> string" where
  "sha256 msg =
     map char_of (concat (map (\<lambda>w. be_bytes 4 (unat w)) (sha256_words (map of_char msg))))"

subsection \<open>Formatting verbs of fmt\<close>

definition digit_char :: "nat \<Rightarrow> char" where
  "digit_char d = char_of (48 + d)"

fun dec_nat :: "nat \<Rightarrow> string" where
  "dec_nat n = (if n < 10 then [digit_char n] else dec_nat (n div 10) @ [digit_char (n mod 10)])"

declare dec_nat.simps [simp del]

text \<open>\<open>%d\<close> of a Go \<open>int\<close> (64 bits, two's complement).\<close>

definition fmt_d :: "64 word \<Rightarrow> string" where
  "fmt_d t = (if sint t < 0 then ''-'' @ dec_nat (nat (- sint t)) else dec_nat (nat (sint t)))"

text \<open>\<open>%t\<close> of a \<open>bool\<close>.\<close>

definition fmt_t :: "bool \<Rightarrow> string" where
  "fmt_t t = (if t then ''true'' else ''false'')"

text \<open>
  \<open>%f\<close> of a \<open>float64\<close>, given by its IEEE 754 bits: six digits after the point, the
  exact binary value rounded to nearest, ties to even.
\<close>

definition round_half_even :: "nat \<Rightarrow> nat \<Rightarrow> nat" where
  "round_half_even n d =
     (let q = n div d; r = n mod d
      in if 2 * r > d \<or> (2 * r = d \<and> odd q) then q + 1 else q)"

definition pad6 :: "string \<Rightarrow> string" where
  "pad6 s = replicate (6 - length s) (CHR ''0'') @ s"

definition fmt_f :: "64 word \<Rightarrow> string" where
  "fmt_f t =
     (let neg = bit t 63;
          e = unat (drop_bit 52 t AND 0x7FF);
          m = unat (t AND 0xFFFFFFFFFFFFF)
      in if e = 2047 then (if m \<noteq> 0 then ''NaN'' else if neg then ''-Inf'' else ''+Inf'')
         else
           let M = (if e = 0 then m else 2 ^ 52 + m);
               E = (if e = 0 then 1 else e);
               n = (if E \<ge> 1075 then M * 1000000 * 2 ^ (E - 1075)
                    else round_half_even (M * 1000000) (2 ^ (1075 - E)))
           in (if neg then ''-'' else '''') @ dec_nat (n div 1000000) @ ''.''
                @ pad6 (dec_nat (n mod 1000000)))"

text \<open>\<open>%x\<close> of a byte array: two lower-case hexadecimal digits per byte.\<close>

definition hex_digit :: "nat \<Rightarrow> char" where
  "hex_digit d = (if d < 10 then char_of (48 + d) else char_of (87 + d))"

definition fmt_x :: "string \<Rightarrow> string" where
  "fmt_x bs = concat (map (\<lambda>c. [hex_digit (of_char c div 16), hex_digit (of_char c mod 16)]) bs)"

subsection \<open>UTF-8 (unicode/utf8)\<close>

text \<open>
  \<open>utf8.DecodeRuneInString\<close>: the rune at the head of a string and its width in bytes.
  Only the shortest encoding of a rune up to U+10FFFF that is no surrogate is accepted;
  at any other byte the result is \<open>RuneError\<close> (U+FFFD) with width 1.
\<close>

definition RuneError :: nat where
  "RuneError = 0xFFFD"

definition is_cont :: "nat \<Rightarrow> bool" where
  "is_cont b = (0x80 \<le> b \<and> b \<le> 0xBF)"

definition DecodeRuneInString :: "string \<Rightarrow> nat \<times> nat" where
  "DecodeRuneInString s =
     (case map of_char s of
        [] \<Rightarrow> (RuneError, 0)
      | b0 # r \<Rightarrow>
          if b0 < 0x80 then (b0, 1)
          else if b0 < 0xC2 \<or> 0xF4 < b0 then (RuneError, 1)
          else if b0 < 0xE0 then
            (case r of
               b1 # _ \<Rightarrow>
                 if is_cont b1 then ((b0 mod 32) * 64 + b1 mod 64, 2) else (RuneError, 1)
             | _ \<Rightarrow> (RuneError, 1))
          else if b0 < 0xF0 then
            (case r of
               b1 # b2 # _ \<Rightarrow>
                 if (if b0 = 0xE0 then 0xA0 else 0x80) \<le> b1
                    \<and> b1 \<le> (if b0 = 0xED then 0x9F else 0xBF) \<and> is_cont b2
                 then (((b0 mod 16) * 64 + b1 mod 64) * 64 + b2 mod 64, 3)
                 else (RuneError, 1)
             | _ \<Rightarrow> (RuneError, 1))
          else
            (case r of
               b1 # b2 # b3 # _ \<Rightarrow>
                 if (if b0 = 0xF0 then 0x90 else 0x80) \<le> b1
                    \<and> b1 \<le> (if b0 = 0xF4 then 0x8F else 0xBF) \<and> is_cont b2 \<and> is_cont b3
                 then ((((b0 mod 8) * 64 + b1 mod 64) * 64 + b2 mod 64) * 64 + b3 mod 64, 4)
                 else (RuneError, 1)
             | _ \<Rightarrow> (RuneError, 1)))"

lemma DecodeRuneInString_width: "s \<noteq> [] \<Longrightarrow> 0 < snd (DecodeRuneInString s)"
  by (cases s) (simp_all add: DecodeRuneInString_def split: list.splits)

text \<open>The runes of a string in order, as \<open>range\<close> yields them.\<close>

function runes :: "string \<Rightarrow> nat list" where
  "runes s =
     (if s = [] then []
      else fst (DecodeRuneInString s) # runes (drop (snd (DecodeRuneInString s)) s))"
  by pat_completeness auto

termination
proof (relation "measure length", goal_cases)
  case 1
  show ?case by simp
next
  case (2 s)
  then show ?case using DecodeRuneInString_width [of s] by simp
qed

declare runes.simps [simp del]

text \<open>
  The encoding of a code point in one to four bytes, and \<open>utf8.AppendRune\<close>, which writes
  \<open>RuneError\<close> for a surrogate and for a value beyond U+10FFFF.
\<close>

definition utf8 :: "nat \<Rightarrow> string" where
  "utf8 n =
     map char_of
       (if n < 0x80 then [n]
        else if n < 0x800 then [0xC0 + n div 64, 0x80 + n mod 64]
        else if n < 0x10000 then [0xE0 + n div 4096, 0x80 + (n div 64) mod 64, 0x80 + n mod 64]
        else [0xF0 + n div 262144, 0x80 + (n div 4096) mod 64, 0x80 + (n div 64) mod 64,
              0x80 + n mod 64])"

definition AppendRune :: "nat \<Rightarrow> string" where
  "AppendRune r = (if 0x10FFFF < r \<or> (0xD800 \<le> r \<and> r \<le> 0xDFFF) then utf8 RuneError else utf8 r)"

subsection \<open>strings.ToLower\<close>

text \<open>
  \<open>unicode.ToLower\<close> maps the ASCII letters itself and looks every other rune up in the
  case tables of the package \<open>unicode\<close>.  The tables are data of the library; the look-up
  \<open>unicode.To(unicode.LowerCase, r)\<close> is the parameter \<open>lowerCase\<close>.
\<close>

type_synonym case_table = "nat \<Rightarrow> nat"

definition unicode_ToLower :: "case_table \<Rightarrow> nat \<Rightarrow> nat" where
  "unicode_ToLower lowerCase r =
     (if r \<le> 0x7F then (if 0x41 \<le> r \<and> r \<le> 0x5A then r + 0x20 else r) else lowerCase r)"

text \<open>
  \<open>strings.ToLower\<close>: a string of ASCII bytes is mapped byte by byte; any other string
  goes through \<open>strings.Map(unicode.ToLower, s)\<close>, which maps the runes of the string and
  writes them with \<open>AppendRune\<close>, so that a byte of an invalid encoding comes out as the
  three bytes of U+FFFD.  On ASCII both ways agree, so one definition covers them.
\<close>

definition ToLower :: "case_table \<Rightarrow> string \<Rightarrow> string" where
  "ToLower lowerCase s = concat (map (\<lambda>r. AppendRune (unicode_ToLower lowerCase r)) (runes s))"

text \<open>
  The entries of the table for the Latin-1 letters (U+00C0 to U+00DE without the
  multiplication sign U+00D7), for the closed instances below; this stand-in leaves
  every other rune as it is, where the table of the library has further entries.
\<close>

definition sample_lowerCase :: case_table where
  "sample_lowerCase r = (if 0xC0 \<le> r \<and> r \<le> 0xDE \<and> r \<noteq> 0xD7 then r + 0x20 else r)"

section \<open>JsonRpcRequest and its cache fingerprint (common/json\_rpc.go)\<close>

text \<open>
  The dynamic values (\<open>interface{}\<close>) that \<open>hashValue\<close> tells apart in its type switch:
  \<open>bool\<close>, \<open>int\<close>, \<open>float64\<close> (by its bits), \<open>string\<close>, \<open>[]interface{}\<close> and
  \<open>map[string]interface{}\<close>.  A map is given by its entries in the order in which
  \<open>range\<close> happens to yield them.  Every value of another dynamic type (\<open>nil\<close> among
  them) is \<open>VOther\<close>, with its \<open>%+v\<close> rendering, the only thing the source looks at.
\<close>

datatype gvalue =
    VBool bool
  | VInt "64 word"
  | VFloat64 "64 word"
  | VString string
  | VSlice "gvalue list"
  | VMap "(string \<times> gvalue) list"
  | VOther string

record JsonRpcRequest =
  req_JSONRPC :: string
  req_ID :: "gvalue option"
  Method :: string
  Params :: "gvalue list"

datatype hash_error = ErrUnsupportedType string

text \<open>
  The \<open>hash.Hash\<close> behind the \<open>io.Writer\<close>: the bytes written so far.  \<open>Write\<close> appends
  and never fails; \<open>Sum(nil)\<close> is the digest of what was written.
\<close>

type_synonym hasher = string

definition Write :: "hasher \<Rightarrow> string \<Rightarrow> hasher" where
  "Write h p = h @ p"

definition Sum_nil :: "hasher \<Rightarrow> string" where
  "Sum_nil h = sha256 h"

lemma size_map_of_entry:
  "map_of t k = Some v \<Longrightarrow> size v < Suc (size_list (size_prod (\<lambda>_. 0) size) t)"
  by (induction t) (auto split: if_splits)

text \<open>
  \<open>hashValue\<close> with the writer passed through; \<open>hashElems\<close> is the loop over a slice,
  \<open>hashKeys\<close> the loop over the sorted keys of the map \<open>t\<close>.  A missing key would read
  as the zero value \<open>nil\<close>, which the type switch rejects.  The first argument is the
  case table behind \<open>strings.ToLower\<close>.
\<close>

function (sequential)
  hashValue :: "case_table \<Rightarrow> hasher \<Rightarrow> gvalue \<Rightarrow> hash_error + hasher" and
  hashElems :: "case_table \<Rightarrow> hasher \<Rightarrow> gvalue list \<Rightarrow> hash_error + hasher" and
  hashKeys :: "case_table \<Rightarrow> hasher \<Rightarrow> (string \<times> gvalue) list \<Rightarrow> string list
                 \<Rightarrow> hash_error + hasher"
where
  "hashValue lc h (VBool t) = Inr (Write h (fmt_t t))"
| "hashValue lc h (VInt t) = Inr (Write h (fmt_d t))"
| "hashValue lc h (VFloat64 t) = Inr (Write h (fmt_f t))"
| "hashValue lc h (VString t) = Inr (Write h (ToLower lc t))"
| "hashValue lc h (VSlice t) = hashElems lc h t"
| "hashValue lc h (VMap t) = hashKeys lc h t (sort (map fst t))"
| "hashValue lc h (VOther d) = Inl (ErrUnsupportedType d)"
| "hashElems lc h [] = Inr h"
| "hashElems lc h (i # rest) =
     (case hashValue lc h i of Inl err \<Rightarrow> Inl err | Inr h' \<Rightarrow> hashElems lc h' rest)"
| "hashKeys lc h t [] = Inr h"
| "hashKeys lc h t (k # ks) =
     (case map_of t k of
        None \<Rightarrow> Inl (ErrUnsupportedType ''<nil>'')
      | Some v \<Rightarrow>
          (case hashValue lc (Write h k) v of
             Inl err \<Rightarrow> Inl err
           | Inr h' \<Rightarrow> hashKeys lc h' t ks))"
  by pat_completeness auto

termination
proof (relation "inv_image (less_than <*lex*> less_than <*lex*> less_than)
    (\<lambda>x. case x of
        Inl (lc, h, v) \<Rightarrow> (size v, 1::nat, 0::nat)
      | Inr (Inl (lc, h, vs)) \<Rightarrow> (Suc (size_list size vs), 0, 0)
      | Inr (Inr (lc, h, t, ks)) \<Rightarrow> (Suc (size_list (size_prod (\<lambda>_. 0) size) t), 0, length ks))",
    goal_cases)
  case 1
  show ?case by (intro wf_inv_image wf_lex_prod wf_less_than)
next
  case (2 lc h t)
  show ?case by simp
next
  case (3 lc h t)
  show ?case by simp
next
  case (4 lc h i rest)
  show ?case by simp
next
  case (5 lc h i rest x2)
  show ?case by simp
next
  case (6 lc h t k ks x2)
  then show ?case using size_map_of_entry [of t k x2] by simp
next
  case (7 lc h t k ks x2 x2a)
  show ?case by simp
qed

text \<open>The loop of \<open>CacheHash\<close> over \<open>r.Params\<close>.\<close>

fun hashParams :: "case_table \<Rightarrow> hasher \<Rightarrow> gvalue list \<Rightarrow> hash_error + hasher" where
  "hashParams lc h [] = Inr h"
| "hashParams lc h (p # ps) =
     (case hashValue lc h p of Inl err \<Rightarrow> Inl err | Inr h' \<Rightarrow> hashParams lc h' ps)"

text \<open>
  \<open>CacheHash\<close>; the receiver may be \<open>nil\<close> (\<open>None\<close>).  The result \<open>("", err)\<close> is
  \<open>Inl err\<close>, the result \<open>(s, nil)\<close> is \<open>Inr s\<close>.
\<close>

definition CacheHash :: "case_table \<Rightarrow> JsonRpcRequest option \<Rightarrow> hash_error + string" where
  "CacheHash lc r =
     (case r of
        None \<Rightarrow> Inr ''''
      | Some req \<Rightarrow>
          (case hashParams lc [] (Params req) of
             Inl err \<Rightarrow> Inl err
           | Inr h \<Rightarrow> Inr (Method req @ '':'' @ fmt_x (sha256 (Sum_nil h)))))"

subsection \<open>The serialisation the specification describes\<close>

text \<open>
  The byte stream of a parameter as the specification words it: a boolean as \<open>true\<close> or
  \<open>false\<close>, an integer in decimal, a float in \<open>%f\<close> style, a string lower-cased, a
  sequence as its elements in order, a map as its keys in sorted order, each followed by
  its value; no stream for any other value.  Nothing separates two elements.
\<close>

function stream_of :: "case_table \<Rightarrow> gvalue \<Rightarrow> string option" where
  "stream_of lc (VBool t) = Some (fmt_t t)"
| "stream_of lc (VInt t) = Some (fmt_d t)"
| "stream_of lc (VFloat64 t) = Some (fmt_f t)"
| "stream_of lc (VString t) = Some (ToLower lc t)"
| "stream_of lc (VSlice t) = map_option concat (those (map (stream_of lc) t))"
| "stream_of lc (VMap t) =
     map_option concat
       (those (map (\<lambda>k. case map_of t k of
                            None \<Rightarrow> None
                          | Some v \<Rightarrow> map_option ((@) k) (stream_of lc v))
                   (sort (map fst t))))"
| "stream_of lc (VOther d) = None"
  by pat_completeness auto

termination
proof (relation "measure (\<lambda>(lc, v). size v)", goal_cases)
  case 1
  show ?case by simp
next
  case (2 lc t x)
  then show ?case by (simp add: size_list_estimation' less_Suc_eq_le)
next
  case (3 lc t k v)
  then show ?case using size_map_of_entry [of t k v] by simp
qed

text \<open>The stream of a parameter list: the streams of the parameters, one after the other.\<close>

definition params_stream :: "case_table \<Rightarrow> gvalue list \<Rightarrow> string option" where
  "params_stream lc ps = map_option concat (those (map (stream_of lc) ps))"

text \<open>
  Two values that differ only in the case of strings and in the order of map entries.
  Two strings differ only in case when \<open>strings.ToLower\<close> maps them to the same string.
  The keys of a Go map are pairwise distinct.
\<close>

fun sameModuloCaseAndOrder :: "case_table \<Rightarrow> gvalue \<Rightarrow> gvalue \<Rightarrow> bool"
  and sameElems :: "case_table \<Rightarrow> gvalue list \<Rightarrow> gvalue list \<Rightarrow> bool"
  and sameEntries :: "case_table \<Rightarrow> (string \<times> gvalue) list \<Rightarrow> (string \<times> gvalue) list \<Rightarrow> bool"
where
  "sameModuloCaseAndOrder lc (VString s) (VString t) = (ToLower lc s = ToLower lc t)"
| "sameModuloCaseAndOrder lc (VSlice xs) (VSlice ys) = sameElems lc xs ys"
| "sameModuloCaseAndOrder lc (VMap t1) (VMap t2) =
     (distinct (map fst t1) \<and> distinct (map fst t2) \<and> set (map fst t1) = set (map fst t2)
      \<and> sameEntries lc t1 t2)"
| "sameModuloCaseAndOrder lc v1 v2 = (v1 = v2)"
| "sameElems lc [] ys = (ys = [])"
| "sameElems lc (x # xs) ys =
     (case ys of [] \<Rightarrow> False | y # ys' \<Rightarrow> sameModuloCaseAndOrder lc x y \<and> sameElems lc xs ys')"
| "sameEntries lc [] t2 = True"
| "sameEntries lc ((k, v1) # rest) t2 =
     ((case map_of t2 k of None \<Rightarrow> False | Some v2 \<Rightarrow> sameModuloCaseAndOrder lc v1 v2)
      \<and> sameEntries lc rest t2)"


section \<open>Properties of the fingerprint\<close>

text \<open>
  Claim C10.  \<open>CacheHash\<close> on a nil request returns the empty string and no error.
\<close>

theorem CacheHash_nil: "CacheHash lc None = Inr ''''"
  by (simp add: CacheHash_def)

subsection \<open>The code writes the specified stream\<close>

lemma hash_stream:
  "(\<forall>s. stream_of lc v = Some s \<longrightarrow> hashValue lc h v = Inr (h @ s))"
  "(\<forall>ss. those (map (stream_of lc') vs) = Some ss \<longrightarrow> hashElems lc' h' vs = Inr (h' @ concat ss))"
  "(\<forall>ss. those (map (\<lambda>k. case map_of t k of None \<Rightarrow> None
                              | Some v \<Rightarrow> map_option ((@) k) (stream_of lc'' v)) ks) = Some ss
        \<longrightarrow> hashKeys lc'' h'' t ks = Inr (h'' @ concat ss))"
proof (induction lc h v and lc' h' vs and lc'' h'' t ks rule: hashValue_hashElems_hashKeys.induct)
  case (9 lc h i rest)
  then show ?case by (auto split: option.splits)
next
  case (11 lc h t k ks)
  then show ?case by (auto simp: Write_def split: option.splits)
qed (auto simp: Write_def)

lemma hash_no_stream:
  "(stream_of lc v = None \<longrightarrow> (\<exists>e. hashValue lc h v = Inl e))"
  "(those (map (stream_of lc') vs) = None \<longrightarrow> (\<exists>e. hashElems lc' h' vs = Inl e))"
  "(those (map (\<lambda>k. case map_of t k of None \<Rightarrow> None
                         | Some v \<Rightarrow> map_option ((@) k) (stream_of lc'' v)) ks) = None
        \<longrightarrow> (\<exists>e. hashKeys lc'' h'' t ks = Inl e))"
proof (induction lc h v and lc' h' vs and lc'' h'' t ks rule: hashValue_hashElems_hashKeys.induct)
  case (9 lc h i rest)
  show ?case
  proof (cases "stream_of lc i")
    case None
    with 9(1) show ?thesis by auto
  next
    case (Some s)
    then have hv: "hashValue lc h i = Inr (h @ s)" using hash_stream(1) by blast
    show ?thesis
    proof
      assume "those (map (stream_of lc) (i # rest)) = None"
      with Some have "those (map (stream_of lc) rest) = None" by (simp split: option.splits)
      with 9(2) [OF hv] hv show "\<exists>e. hashElems lc h (i # rest) = Inl e" by simp
    qed
  qed
next
  case (11 lc h t k ks)
  show ?case
  proof (cases "map_of t k")
    case None
    then show ?thesis by simp
  next
    case (Some v)
    show ?thesis
    proof (cases "stream_of lc v")
      case None
      with 11(1) [OF Some] obtain e where "hashValue lc (Write h k) v = Inl e" by blast
      with Some show ?thesis by simp
    next
      case s: (Some s)
      then have hv: "hashValue lc (Write h k) v = Inr (Write h k @ s)"
        using hash_stream(1) by blast
      show ?thesis
      proof
        assume "those (map (\<lambda>k. case map_of t k of None \<Rightarrow> None
                         | Some v \<Rightarrow> map_option ((@) k) (stream_of lc v)) (k # ks)) = None"
        with Some s have "those (map (\<lambda>k. case map_of t k of None \<Rightarrow> None
                         | Some v \<Rightarrow> map_option ((@) k) (stream_of lc v)) ks) = None"
          by (simp split: option.splits)
        with 11(2) [OF Some hv] Some hv show "\<exists>e. hashKeys lc h t (k # ks) = Inl e" by simp
      qed
    qed
  qed
qed simp_all

lemma hashParams_stream:
  "those (map (stream_of lc) ps) = Some ss \<Longrightarrow> hashParams lc h ps = Inr (h @ concat ss)"
proof (induction ps arbitrary: h ss)
  case Nil
  then show ?case by simp
next
  case (Cons p ps)
  from Cons.prems obtain s ss' where s: "stream_of lc p = Some s"
    and ss': "those (map (stream_of lc) ps) = Some ss'" and ss: "ss = s # ss'"
    by (auto split: option.splits)
  from s have "hashValue lc h p = Inr (h @ s)" using hash_stream(1) by blast
  with Cons.IH [OF ss'] ss show ?case by simp
qed

lemma hashParams_no_stream:
  "those (map (stream_of lc) ps) = None \<Longrightarrow> \<exists>e. hashParams lc h ps = Inl e"
proof (induction ps arbitrary: h)
  case Nil
  then show ?case by simp
next
  case (Cons p ps)
  show ?case
  proof (cases "stream_of lc p")
    case None
    then obtain e where "hashValue lc h p = Inl e" using hash_no_stream(1) by blast
    then show ?thesis by simp
  next
    case (Some s)
    then have hv: "hashValue lc h p = Inr (h @ s)" using hash_stream(1) by blast
    from Cons.prems Some have "those (map (stream_of lc) ps) = None"
      by (simp split: option.splits)
    from Cons.IH [OF this, of "h @ s"] hv show ?thesis by simp
  qed
qed

text \<open>
  The parameters of a request hash successfully exactly when they have a stream, and the
  bytes written are then the stream.
\<close>

lemma hashParams_iff_stream:
  "hashParams lc [] ps = Inr s \<longleftrightarrow> params_stream lc ps = Some s"
proof (cases "those (map (stream_of lc) ps)")
  case None
  from hashParams_no_stream [OF None, of "[]"] None show ?thesis
    by (auto simp: params_stream_def)
next
  case (Some ss)
  from hashParams_stream [OF Some, of "[]"] Some show ?thesis
    by (auto simp: params_stream_def)
qed

text \<open>
  Claim C5.  For a non-nil request all of whose parameters have a stream (none holds a
  value of an unsupported type), \<open>CacheHash\<close> returns \<open>method:hexdigest\<close>, where the
  digest is the SHA-256 of the SHA-256 of the concatenated parameter streams, in
  lower-case hexadecimal.
\<close>

theorem CacheHash_double_digest:
  assumes "those (map (stream_of lc) (Params r)) = Some ss"
  shows "CacheHash lc (Some r) = Inr (Method r @ '':'' @ fmt_x (sha256 (sha256 (concat ss))))"
  using hashParams_stream [OF assms, of "[]"] by (simp add: CacheHash_def Sum_nil_def)

text \<open>
  An instance: a string, a string with the letter U+00C9 (in UTF-8 the bytes C3 89, in
  lower case C3 A9), a nested sequence and a map whose keys get sorted.
\<close>

theorem CacheHash_double_digest_witness:
  "those (map (stream_of sample_lowerCase)
      (Params \<lparr>req_JSONRPC = ''2.0'', req_ID = None, Method = ''eth_getBalance'',
        Params = [VString ''0xABC'', VString [CHR 0xC3, CHR 0x89], VSlice [VBool True, VInt 7],
                  VMap [(''to'', VString ''X''), (''from'', VInt (-1))]]\<rparr>))
     = Some [''0xabc'', [CHR 0xC3, CHR 0xA9], ''true7'', ''from-1tox'']
   \<and> CacheHash sample_lowerCase
        (Some \<lparr>req_JSONRPC = ''2.0'', req_ID = None, Method = ''eth_getBalance'',
        Params = [VString ''0xABC'', VString [CHR 0xC3, CHR 0x89], VSlice [VBool True, VInt 7],
                  VMap [(''to'', VString ''X''), (''from'', VInt (-1))]]\<rparr>)
     = Inr (''eth_getBalance:''
             @ fmt_x (sha256 (sha256 (''0xabc'' @ [CHR 0xC3, CHR 0xA9] @ ''true7from-1tox''))))"
proof -
  have a: "those (map (stream_of sample_lowerCase)
      (Params \<lparr>req_JSONRPC = ''2.0'', req_ID = None, Method = ''eth_getBalance'',
        Params = [VString ''0xABC'', VString [CHR 0xC3, CHR 0x89], VSlice [VBool True, VInt 7],
                  VMap [(''to'', VString ''X''), (''from'', VInt (-1))]]\<rparr>))
     = Some [''0xabc'', [CHR 0xC3, CHR 0xA9], ''true7'', ''from-1tox'']"
    by code_simp
  show ?thesis using a CacheHash_double_digest [OF a] by simp
qed

subsection \<open>Determinism\<close>








subsection \<open>Sensitivity\<close>

lemma length_sha256_round: "length s = 8 \<Longrightarrow> length (sha256_round s kw) = 8"
  by (cases "(s, kw)" rule: sha256_round.cases) (simp_all add: Let_def)

lemma length_foldl_round: "length s = 8 \<Longrightarrow> length (foldl sha256_round s kws) = 8"
  by (induction kws arbitrary: s) (simp_all add: length_sha256_round)

lemma length_sha256_block: "length hs = 8 \<Longrightarrow> length (sha256_block hs blk) = 8"
  by (simp add: sha256_block_def length_foldl_round)

lemma length_foldl_block: "length hs = 8 \<Longrightarrow> length (foldl sha256_block hs blks) = 8"
  by (induction blks arbitrary: hs) (simp_all add: length_sha256_block)

lemma length_sha256 [simp]: "length (sha256 msg) = 32"
proof -
  have "length (sha256_words (map of_char msg)) = 8"
    by (simp add: sha256_words_def Let_def length_foldl_block sha256_H0_def)
  then obtain a b c d e f g h where "sha256_words (map of_char msg) = [a, b, c, d, e, f, g, h]"
    by (auto simp: length_Suc_conv numeral_eq_Suc)
  then show ?thesis by (simp add: sha256_def be_bytes_def)
qed

lemma length_fmt_x [simp]: "length (fmt_x bs) = 2 * length bs"
  by (induction bs) (simp_all add: fmt_x_def)

lemma hex_digit_inj: "a < 16 \<Longrightarrow> b < 16 \<Longrightarrow> hex_digit a = hex_digit b \<Longrightarrow> a = b"
proof -
  assume a: "a < 16" and b: "b < 16" and e: "hex_digit a = hex_digit b"
  have v: "\<And>d. d < 16 \<Longrightarrow> (of_char (hex_digit d) :: nat) = (if d < 10 then 48 + d else 87 + d)"
    by (simp add: hex_digit_def)
  from e have "(of_char (hex_digit a) :: nat) = of_char (hex_digit b)" by simp
  with v [OF a] v [OF b] show "a = b" by (simp split: if_splits)
qed

lemma fmt_x_Cons:
  "fmt_x (c # bs) = hex_digit (of_char c div 16) # hex_digit (of_char c mod 16) # fmt_x bs"
  by (simp add: fmt_x_def)

lemma char_nibbles_inj:
  assumes "hex_digit (of_char c div 16) = hex_digit (of_char d div 16)"
    and "hex_digit (of_char c mod 16) = hex_digit (of_char d mod 16)"
  shows "c = d"
proof -
  have lt: "\<And>x :: char. (of_char x :: nat) < 256" by simp
  have c: "(of_char c :: nat) div 16 < 16" and d: "(of_char d :: nat) div 16 < 16"
    using lt [of c] lt [of d] by (simp_all add: less_mult_imp_div_less)
  from hex_digit_inj [OF c d assms(1)] have hi: "(of_char c :: nat) div 16 = of_char d div 16" .
  from hex_digit_inj [OF _ _ assms(2)] have lo: "(of_char c :: nat) mod 16 = of_char d mod 16"
    by simp
  have "(of_char c :: nat) = of_char d"
    using hi lo by (metis div_mult_mod_eq)
  then show ?thesis by simp
qed

lemma fmt_x_inj: "fmt_x xs = fmt_x ys \<Longrightarrow> xs = ys"
proof (induction xs arbitrary: ys)
  case Nil
  then show ?case by (cases ys) (simp_all add: fmt_x_def)
next
  case (Cons x xs)
  then show ?case
    by (cases ys) (auto simp: fmt_x_Cons dest: char_nibbles_inj simp: fmt_x_def)
qed

text \<open>The digests of the streams \<open>ab\<close> and \<open>ba\<close>, and the digests of these digests.\<close>

lemma sha256_ab:
  "sha256 ''ab''
   = map char_of
       [0xFB, 0x8E, 0x20, 0xFC, 0x2E, 0x4C, 0x3F, 0x24, 0x8C, 0x60, 0xC3, 0x9B, 0xD6, 0x52, 0xF3,
        0xC1, 0x34, 0x72, 0x98, 0xBB, 0x97, 0x7B, 0x8B, 0x4D, 0x59, 0x03, 0xB8, 0x50, 0x55, 0x62,
        0x06, 0x03 :: nat]"
  by code_simp

lemma sha256_ba:
  "sha256 ''ba''
   = map char_of
       [0x97, 0x0F, 0x51, 0x9C, 0x2C, 0xAD, 0xBC, 0xEF, 0xB1, 0xE8, 0x16, 0x94, 0xF9, 0x04, 0xBC,
        0x62, 0x29, 0xDD, 0x2A, 0x83, 0x00, 0xE9, 0x8C, 0x6D, 0x0D, 0x4F, 0xC4, 0xBF, 0xCA, 0x58,
        0x41, 0x40 :: nat]"
  by code_simp

lemma sha256_sha256_ab:
  "fmt_x (sha256 (map char_of
       [0xFB, 0x8E, 0x20, 0xFC, 0x2E, 0x4C, 0x3F, 0x24, 0x8C, 0x60, 0xC3, 0x9B, 0xD6, 0x52, 0xF3,
        0xC1, 0x34, 0x72, 0x98, 0xBB, 0x97, 0x7B, 0x8B, 0x4D, 0x59, 0x03, 0xB8, 0x50, 0x55, 0x62,
        0x06, 0x03 :: nat]))
   = ''a1ff8f1856b5e24e32e3882edd4a021f48f28a8b21854b77fdef25a97601aace''"
  by code_simp

lemma sha256_sha256_ba:
  "fmt_x (sha256 (map char_of
       [0x97, 0x0F, 0x51, 0x9C, 0x2C, 0xAD, 0xBC, 0xEF, 0xB1, 0xE8, 0x16, 0x94, 0xF9, 0x04, 0xBC,
        0x62, 0x29, 0xDD, 0x2A, 0x83, 0x00, 0xE9, 0x8C, 0x6D, 0x0D, 0x4F, 0xC4, 0xBF, 0xCA, 0x58,
        0x41, 0x40 :: nat]))
   = ''f6d23b6f1e00bedc1e941f73d03578afede1b2eac8b84c185f1e4fbadf13f3da''"
  by code_simp

text \<open>
  Claim C4, as amended.  Two requests whose parameters have a stream (so that they hash
  successfully) have the same fingerprint exactly when their methods are equal and the
  double SHA-256 digests of their parameter streams are equal.  So a difference in the
  method always shows in the fingerprint, and a difference in a parameter value or in
  the order of the elements of a sequence shows whenever it changes the stream, which
  is the concatenation of the streams of the parameters without any separator, and the
  digests of the two streams do not collide.
\<close>

theorem CacheHash_equal_iff:
  assumes "params_stream lc (Params r1) = Some s1" and "params_stream lc (Params r2) = Some s2"
  shows "CacheHash lc (Some r1) = CacheHash lc (Some r2)
         \<longleftrightarrow> Method r1 = Method r2 \<and> sha256 (sha256 s1) = sha256 (sha256 s2)"
proof -
  from assms have h: "hashParams lc [] (Params r1) = Inr s1" "hashParams lc [] (Params r2) = Inr s2"
    by (simp_all add: hashParams_iff_stream)
  have "Method r1 @ '':'' @ fmt_x (sha256 (sha256 s1)) = Method r2 @ '':'' @ fmt_x (sha256 (sha256 s2))
        \<longleftrightarrow> Method r1 = Method r2 \<and> fmt_x (sha256 (sha256 s1)) = fmt_x (sha256 (sha256 s2))"
    by (subst append_eq_append_conv) auto
  then show ?thesis using h by (auto simp: CacheHash_def Sum_nil_def dest: fmt_x_inj)
qed

text \<open>
  An instance: two requests with the same method whose parameters \<open>["a", "b"]\<close> and
  \<open>["b", "a"]\<close> differ in the order of the elements.  Their streams are \<open>ab\<close> and \<open>ba\<close>,
  and their fingerprints differ.
\<close>

theorem CacheHash_equal_iff_witness:
  "params_stream sample_lowerCase
      (Params \<lparr>req_JSONRPC = ''2.0'', req_ID = None, Method = ''eth_call'',
               Params = [VString ''a'', VString ''b'']\<rparr>) = Some ''ab''
   \<and> params_stream sample_lowerCase
      (Params \<lparr>req_JSONRPC = ''2.0'', req_ID = None, Method = ''eth_call'',
               Params = [VString ''b'', VString ''a'']\<rparr>) = Some ''ba''
   \<and> CacheHash sample_lowerCase
        (Some \<lparr>req_JSONRPC = ''2.0'', req_ID = None, Method = ''eth_call'',
               Params = [VString ''a'', VString ''b'']\<rparr>)
       = Inr ''eth_call:a1ff8f1856b5e24e32e3882edd4a021f48f28a8b21854b77fdef25a97601aace''
   \<and> CacheHash sample_lowerCase
        (Some \<lparr>req_JSONRPC = ''2.0'', req_ID = None, Method = ''eth_call'',
               Params = [VString ''b'', VString ''a'']\<rparr>)
       = Inr ''eth_call:f6d23b6f1e00bedc1e941f73d03578afede1b2eac8b84c185f1e4fbadf13f3da''
   \<and> CacheHash sample_lowerCase
        (Some \<lparr>req_JSONRPC = ''2.0'', req_ID = None, Method = ''eth_call'',
               Params = [VString ''a'', VString ''b'']\<rparr>)
       \<noteq> CacheHash sample_lowerCase
        (Some \<lparr>req_JSONRPC = ''2.0'', req_ID = None, Method = ''eth_call'',
               Params = [VString ''b'', VString ''a'']\<rparr>)"
proof -
  let ?r1 = "\<lparr>req_JSONRPC = ''2.0'', req_ID = None, Method = ''eth_call'',
               Params = [VString ''a'', VString ''b'']\<rparr>"
  let ?r2 = "\<lparr>req_JSONRPC = ''2.0'', req_ID = None, Method = ''eth_call'',
               Params = [VString ''b'', VString ''a'']\<rparr>"
  have a: "params_stream sample_lowerCase (Params ?r1) = Some ''ab''"
    by code_simp
  have b: "params_stream sample_lowerCase (Params ?r2) = Some ''ba''"
    by code_simp
  have x1: "fmt_x (sha256 (sha256 ''ab''))
      = ''a1ff8f1856b5e24e32e3882edd4a021f48f28a8b21854b77fdef25a97601aace''"
    by (simp only: sha256_ab sha256_sha256_ab)
  have x2: "fmt_x (sha256 (sha256 ''ba''))
      = ''f6d23b6f1e00bedc1e941f73d03578afede1b2eac8b84c185f1e4fbadf13f3da''"
    by (simp only: sha256_ba sha256_sha256_ba)
  from x1 x2 have "fmt_x (sha256 (sha256 ''ab'')) \<noteq> fmt_x (sha256 (sha256 ''ba''))"
    by simp
  then have d: "sha256 (sha256 ''ab'') \<noteq> sha256 (sha256 ''ba'')" by auto
  from a have h1: "hashParams sample_lowerCase [] (Params ?r1) = Inr ''ab''"
    by (simp only: hashParams_iff_stream)
  from b have h2: "hashParams sample_lowerCase [] (Params ?r2) = Inr ''ba''"
    by (simp only: hashParams_iff_stream)
  have f1: "CacheHash sample_lowerCase (Some ?r1)
      = Inr ''eth_call:a1ff8f1856b5e24e32e3882edd4a021f48f28a8b21854b77fdef25a97601aace''"
    using h1 x1 by (simp add: CacheHash_def Sum_nil_def)
  have f2: "CacheHash sample_lowerCase (Some ?r2)
      = Inr ''eth_call:f6d23b6f1e00bedc1e941f73d03578afede1b2eac8b84c185f1e4fbadf13f3da''"
    using h2 x2 by (simp add: CacheHash_def Sum_nil_def)
  from CacheHash_equal_iff [OF a b] d
  have "CacheHash sample_lowerCase (Some ?r1) \<noteq> CacheHash sample_lowerCase (Some ?r2)"
    by simp
  with a b f1 f2 show ?thesis by (intro conjI)
qed

text \<open>
  The claim as stated fails: the parameter lists \<open>["a", "aa"]\<close> and \<open>["aa", "a"]\<close>
  differ in the order of their elements, not merely in case or key order, and both have
  the stream \<open>aaa\<close>, so the two requests share their fingerprint whatever the digest.
\<close>

theorem CacheHash_collision:
  "CacheHash sample_lowerCase
     (Some \<lparr>req_JSONRPC = ''2.0'', req_ID = None, Method = ''m'',
            Params = [VString ''a'', VString ''aa'']\<rparr>)
   = CacheHash sample_lowerCase
     (Some \<lparr>req_JSONRPC = ''2.0'', req_ID = None, Method = ''m'',
            Params = [VString ''aa'', VString ''a'']\<rparr>)
   \<and> \<not> sameElems sample_lowerCase [VString ''a'', VString ''aa''] [VString ''aa'', VString ''a'']"
proof -
  have 1: "ToLower sample_lowerCase ''a'' = ''a''" by code_simp
  have 2: "ToLower sample_lowerCase ''aa'' = ''aa''" by code_simp
  show ?thesis by (simp add: CacheHash_def Write_def 1 2)
qed

section \<open>Decoding JSON (the part of the decoder the response parser relies on)\<close>

text \<open>
  \<open>sonic.Unmarshal\<close> reads its input as one JSON text and fails on anything else.
  The structure is that of RFC 8259.  Inside a string the decoder, as configured by
  default, only looks for the closing quote, a backslash taking the next byte with it:
  control bytes are let through, and an escape is looked at only when the string is
  decoded into a Go string, not when the value is kept as raw text or skipped.  So the
  syntax tree keeps a number and a string as their literals.
\<close>

datatype json =
    JNull
  | JBool bool
  | JNumber string
  | JString string
  | JArray "json list"
  | JObject "(string \<times> json) list"

definition is_ws :: "char \<Rightarrow> bool" where
  "is_ws c = (c = CHR '' '' \<or> c = CHR 0x09 \<or> c = CHR 0x0A \<or> c = CHR 0x0D)"

definition skip_ws :: "string \<Rightarrow> string" where
  "skip_ws s = dropWhile is_ws s"

lemma length_skip_ws: "length (skip_ws s) \<le> length s"
  by (simp add: skip_ws_def length_dropWhile_le)

definition is_digit :: "char \<Rightarrow> bool" where
  "is_digit c = (48 \<le> (of_char c :: nat) \<and> (of_char c :: nat) \<le> 57)"

definition hex_val :: "char \<Rightarrow> nat option" where
  "hex_val c =
     (let n = (of_char c :: nat)
      in if 48 \<le> n \<and> n \<le> 57 then Some (n - 48)
         else if 97 \<le> n \<and> n \<le> 102 then Some (n - 87)
         else if 65 \<le> n \<and> n \<le> 70 then Some (n - 55)
         else None)"

definition hex4 :: "string \<Rightarrow> (nat \<times> string) option" where
  "hex4 s =
     (case s of
        a # b # c # d # rest \<Rightarrow>
          (case (hex_val a, hex_val b, hex_val c, hex_val d) of
             (Some x, Some y, Some z, Some w) \<Rightarrow> Some (((x * 16 + y) * 16 + z) * 16 + w, rest)
           | _ \<Rightarrow> None)
      | _ \<Rightarrow> None)"

lemma hex4_length: "hex4 s = Some (n, r) \<Longrightarrow> length s = length r + 4"
  by (auto simp: hex4_def split: list.splits option.splits)

definition unescape :: "char \<Rightarrow> char option" where
  "unescape e =
     (if e = CHR 0x22 \<or> e = CHR 0x5C \<or> e = CHR ''/'' then Some e
      else if e = CHR ''b'' then Some (CHR 0x08)
      else if e = CHR ''f'' then Some (CHR 0x0C)
      else if e = CHR ''n'' then Some (CHR 0x0A)
      else if e = CHR ''r'' then Some (CHR 0x0D)
      else if e = CHR ''t'' then Some (CHR 0x09)
      else None)"

text \<open>The code point of a \<open>\u\<close> escape (after the \<open>u\<close>), and what follows it.\<close>

definition escaped_rune :: "string \<Rightarrow> (nat \<times> string) option" where
  "escaped_rune s =
     (case hex4 s of
        None \<Rightarrow> None
      | Some (n, r) \<Rightarrow>
          if 0xD800 \<le> n \<and> n < 0xDC00 then
            (case r of
               b # u # r' \<Rightarrow>
                 (if b = CHR 0x5C \<and> u = CHR ''u'' then
                    (case hex4 r' of
                       Some (m, r'') \<Rightarrow>
                         if 0xDC00 \<le> m \<and> m < 0xE000
                         then Some (0x10000 + (n - 0xD800) * 0x400 + (m - 0xDC00), r'')
                         else Some (0xFFFD, r)
                     | None \<Rightarrow> Some (0xFFFD, r))
                  else Some (0xFFFD, r))
             | _ \<Rightarrow> Some (0xFFFD, r))
          else if 0xDC00 \<le> n \<and> n < 0xE000 then Some (0xFFFD, r)
          else Some (n, r))"

lemma escaped_rune_length: "escaped_rune s = Some (n, r) \<Longrightarrow> length r < length s"
  by (auto simp: escaped_rune_def split: option.splits if_splits list.splits dest!: hex4_length)

text \<open>
  The body of a string literal, from behind the opening quote up to the closing one, as
  it stands in the text, and what follows the closing quote.
\<close>

fun scan_string :: "string \<Rightarrow> string \<Rightarrow> (string \<times> string) option" where
  "scan_string acc [] = None"
| "scan_string acc (c # cs) =
     (if c = CHR 0x22 then Some (acc, cs)
      else if c = CHR 0x5C then
        (case cs of
           [] \<Rightarrow> None
         | e # cs' \<Rightarrow> scan_string (acc @ [c, e]) cs')
      else scan_string (acc @ [c]) cs)"

lemma scan_string_length: "scan_string acc s = Some (str, r) \<Longrightarrow> length r < length s"
proof (induction acc s rule: scan_string.induct)
  case (1 acc)
  then show ?case by simp
next
  case (2 acc c cs)
  show ?case
  proof (cases "c = CHR 0x22")
    case True
    with 2 show ?thesis by simp
  next
    case nq: False
    show ?thesis
    proof (cases "c = CHR 0x5C")
      case True
      with nq 2(3) obtain e cs' where cs: "cs = e # cs'"
        and s: "scan_string (acc @ [c, e]) cs' = Some (str, r)"
        by (cases cs) auto
      from 2(1) [OF nq True cs s] cs show ?thesis by simp
    next
      case False
      with nq 2(3) have "scan_string (acc @ [c]) cs = Some (str, r)" by simp
      from 2(2) [OF nq False this] show ?thesis by simp
    qed
  qed
qed

text \<open>
  The Go string that the body of a literal stands for.  An escape other than the eight
  of JSON and \<open>\u\<close> with four hexadecimal digits is an error; a surrogate without its
  partner is read as U+FFFD.
\<close>

function unquote :: "string \<Rightarrow> string option" where
  "unquote s =
     (case s of
        [] \<Rightarrow> Some []
      | c # cs \<Rightarrow>
          if c = CHR 0x5C then
            (case cs of
               [] \<Rightarrow> None
             | e # cs' \<Rightarrow>
                 if e = CHR ''u'' then
                   (case escaped_rune cs' of
                      None \<Rightarrow> None
                    | Some (n, r) \<Rightarrow> map_option ((@) (utf8 n)) (unquote r))
                 else
                   (case unescape e of
                      None \<Rightarrow> None
                    | Some x \<Rightarrow> map_option ((#) x) (unquote cs')))
          else map_option ((#) c) (unquote cs))"
  by pat_completeness auto

termination
proof (relation "measure length", goal_cases)
  case 1
  show ?case by simp
next
  case (2 s c cs e cs' x2 n r)
  then show ?case using escaped_rune_length [of cs' n r] by simp
next
  case (3 s c cs e cs' x2)
  then show ?case by simp
next
  case (4 s c cs)
  then show ?case by simp
qed

declare unquote.simps [simp del]

definition scan_number :: "string \<Rightarrow> (string \<times> string) option" where
  "scan_number s =
     (let sign = takeWhile (\<lambda>c. c = CHR ''-'') (take 1 s);
          s1 = drop (length sign) s;
          ip = (if take 1 s1 = ''0'' then ''0'' else takeWhile is_digit s1);
          s2 = drop (length ip) s1;
          fd = (if take 1 s2 = ''.'' then takeWhile is_digit (drop 1 s2) else '''');
          fp = (if take 1 s2 = ''.'' then ''.'' @ fd else '''');
          s3 = drop (length fp) s2;
          ee = (if take 1 s3 = ''e'' \<or> take 1 s3 = ''E'' then take 1 s3 else '''');
          es = takeWhile (\<lambda>c. c = CHR ''+'' \<or> c = CHR ''-'') (take 1 (drop 1 s3));
          ed = takeWhile is_digit (drop (1 + length es) s3);
          ep = (if ee = '''' then '''' else ee @ es @ ed);
          s4 = drop (length ep) s3
      in if ip = '''' \<or> (take 1 s2 = ''.'' \<and> fd = '''') \<or> (ee \<noteq> '''' \<and> ed = '''') then None
         else Some (sign @ ip @ fp @ ep, s4))"

lemma skip_ws_Cons_length: "skip_ws r = c # r' \<Longrightarrow> length r' < length r"
  using length_skip_ws [of r] by simp

function
  parse_value :: "string \<Rightarrow> (json \<times> string) option" and
  parse_elements :: "json list \<Rightarrow> string \<Rightarrow> (json list \<times> string) option" and
  parse_members :: "(string \<times> json) list \<Rightarrow> string \<Rightarrow> ((string \<times> json) list \<times> string) option"
where
  "parse_value s =
     (case s of
        [] \<Rightarrow> None
      | c # r \<Rightarrow>
          if c = CHR ''{'' then
            (if take 1 (skip_ws r) = ''}'' then Some (JObject [], drop 1 (skip_ws r))
             else map_option (\<lambda>(ms, r'). (JObject ms, r')) (parse_members [] (skip_ws r)))
          else if c = CHR ''['' then
            (if take 1 (skip_ws r) = '']'' then Some (JArray [], drop 1 (skip_ws r))
             else map_option (\<lambda>(vs, r'). (JArray vs, r')) (parse_elements [] (skip_ws r)))
          else if c = CHR 0x22 then map_option (\<lambda>(str, r'). (JString str, r')) (scan_string [] r)
          else if take 4 s = ''true'' then Some (JBool True, drop 4 s)
          else if take 5 s = ''false'' then Some (JBool False, drop 5 s)
          else if take 4 s = ''null'' then Some (JNull, drop 4 s)
          else map_option (\<lambda>(lit, r'). (JNumber lit, r')) (scan_number s))"
| "parse_elements acc s =
     (case parse_value s of
        None \<Rightarrow> None
      | Some (v, r) \<Rightarrow>
          if length r < length s then
            (case skip_ws r of
               [] \<Rightarrow> None
             | c # r' \<Rightarrow>
                 if c = CHR '','' then parse_elements (acc @ [v]) (skip_ws r')
                 else if c = CHR '']'' then Some (acc @ [v], r')
                 else None)
          else None)"
| "parse_members acc s =
     (case s of
        [] \<Rightarrow> None
      | q # r \<Rightarrow>
          if q = CHR 0x22 then
            (case scan_string [] r of
               None \<Rightarrow> None
             | Some (k, r1) \<Rightarrow>
                 (case skip_ws r1 of
                    [] \<Rightarrow> None
                  | c # r2 \<Rightarrow>
                      if c = CHR '':'' then
                        (case parse_value (skip_ws r2) of
                           None \<Rightarrow> None
                         | Some (v, r3) \<Rightarrow>
                             if length r3 < length s then
                               (case skip_ws r3 of
                                  [] \<Rightarrow> None
                                | d # r4 \<Rightarrow>
                                    if d = CHR '','' then parse_members (acc @ [(k, v)]) (skip_ws r4)
                                    else if d = CHR ''}'' then Some (acc @ [(k, v)], r4)
                                    else None)
                             else None)
                      else None))
          else None)"
  by pat_completeness auto

termination
proof (relation "inv_image (less_than <*lex*> less_than)
    (\<lambda>x. case x of
        Inl s \<Rightarrow> (length s, 0::nat)
      | Inr (Inl (acc, s)) \<Rightarrow> (length s, 1)
      | Inr (Inr (acc, s)) \<Rightarrow> (length s, 1))", goal_cases)
  case 1
  show ?case by (intro wf_inv_image wf_lex_prod wf_less_than)
next
  case (2 s c r)
  then show ?case using length_skip_ws [of r] by (simp add: less_Suc_eq_le)
next
  case (3 s c r)
  then show ?case using length_skip_ws [of r] by (simp add: less_Suc_eq_le)
next
  case (4 acc s)
  show ?case by simp
next
  case (5 acc s x2 v r c r')
  then show ?case
    using skip_ws_Cons_length [of r c r'] length_skip_ws [of r'] by (simp)
next
  case (6 acc s q r x2 k r1 c r2)
  then show ?case
    using scan_string_length [of "[]" r k r1] skip_ws_Cons_length [of r1 c r2]
      length_skip_ws [of r2]
    by (simp)
next
  case (7 acc s q r x2 k r1 c r2 x2a v r3 d r4)
  then show ?case
    using skip_ws_Cons_length [of r3 d r4] length_skip_ws [of r4] by (simp)
qed

definition parse_json :: "string \<Rightarrow> json option" where
  "parse_json data =
     (case parse_value (skip_ws data) of
        None \<Rightarrow> None
      | Some (v, r) \<Rightarrow> if skip_ws r = [] then Some v else None)"

text \<open>
  The tests \<open>length r < length s\<close> in \<open>parse_elements\<close> and \<open>parse_members\<close> only serve
  the termination proof: a value that is read always consumes input.
\<close>

declare parse_value.simps [simp del] parse_elements.simps [simp del] parse_members.simps [simp del]

lemma scan_number_length: "scan_number s = Some (lit, r) \<Longrightarrow> length r < length s"
proof -
  assume a: "scan_number s = Some (lit, r)"
  define s1 where "s1 = drop (length (takeWhile (\<lambda>c. c = CHR ''-'') (take 1 s))) s"
  define ip where "ip = (if take 1 s1 = ''0'' then ''0'' else takeWhile is_digit s1)"
  have ip: "ip \<noteq> []" and r: "length r \<le> length s1 - length ip"
    using a unfolding scan_number_def Let_def s1_def [symmetric] ip_def [symmetric]
    by (auto split: if_splits)
  have "length ip \<le> length s1"
    by (cases s1) (auto simp: ip_def length_takeWhile_le)
  moreover have "length s1 \<le> length s" by (simp add: s1_def)
  ultimately show ?thesis using ip r by (cases ip) auto
qed

lemma parse_consumes:
  "(\<forall>v r. parse_value s = Some (v, r) \<longrightarrow> length r < length s)"
  "(\<forall>vs r. parse_elements acc s' = Some (vs, r) \<longrightarrow> length r < length s')"
  "(\<forall>ms r. parse_members acc' s'' = Some (ms, r) \<longrightarrow> length r < length s'')"
proof (induction s and acc s' and acc' s'' rule: parse_value_parse_elements_parse_members.induct)
  case (1 s)
  show ?case
  proof (intro allI impI)
    fix v r assume a: "parse_value s = Some (v, r)"
    then obtain c t where s: "s = c # t"
      by (cases s) (auto simp: parse_value.simps)
    have sk: "length (skip_ws t) \<le> length t" by (rule length_skip_ws)
    consider (obj) "c = CHR ''{''" | (arr) "c \<noteq> CHR ''{''" "c = CHR ''[''"
      | (str) "c \<noteq> CHR ''{''" "c \<noteq> CHR ''[''" "c = CHR 0x22"
      | (lit) "c \<noteq> CHR ''{''" "c \<noteq> CHR ''[''" "c \<noteq> CHR 0x22"
      by blast
    then show "length r < length s"
    proof cases
      case obj
      show ?thesis
      proof (cases "take 1 (skip_ws t) = ''}''")
        case True
        with a s obj have "r = drop 1 (skip_ws t)" by (simp add: parse_value.simps)
        with sk s show ?thesis by simp
      next
        case False
        with a s obj obtain ms where "parse_members [] (skip_ws t) = Some (ms, r)"
          by (auto simp: parse_value.simps)
        with 1(1) [OF s obj False] have "length r < length (skip_ws t)" by blast
        with sk s show ?thesis by simp
      qed
    next
      case arr
      show ?thesis
      proof (cases "take 1 (skip_ws t) = '']''")
        case True
        with a s arr have "r = drop 1 (skip_ws t)" by (simp add: parse_value.simps)
        with sk s show ?thesis by simp
      next
        case False
        with a s arr obtain vs where "parse_elements [] (skip_ws t) = Some (vs, r)"
          by (auto simp: parse_value.simps)
        with 1(2) [OF s arr(1) arr(2) False] have "length r < length (skip_ws t)" by blast
        with sk s show ?thesis by simp
      qed
    next
      case str
      with a s obtain x where "scan_string [] t = Some (x, r)"
        by (auto simp: parse_value.simps)
      from scan_string_length [OF this] s show ?thesis by simp
    next
      case lit
      with a s have "(take 4 s = ''true'' \<and> r = drop 4 s) \<or> (take 5 s = ''false'' \<and> r = drop 5 s)
          \<or> (take 4 s = ''null'' \<and> r = drop 4 s) \<or> (\<exists>l. scan_number s = Some (l, r))"
        by (auto simp: parse_value.simps split: if_splits)
      then show ?thesis using s by (auto dest: scan_number_length)
    qed
  qed
next
  case (2 acc s)
  show ?case
  proof (intro allI impI)
    fix vs r assume a: "parse_elements acc s = Some (vs, r)"
    note a' = a [unfolded parse_elements.simps [of acc s]]
    from a' obtain v r0 where pv: "parse_value s = Some (v, r0)" and lt: "length r0 < length s"
      by (auto split: option.splits if_splits)
    from a' pv lt obtain c r1 where sk: "skip_ws r0 = c # r1"
      by (cases "skip_ws r0") auto
    have l1: "length r1 < length r0" using length_skip_ws [of r0] sk by simp
    show "length r < length s"
    proof (cases "c = CHR '',''")
      case True
      with a' pv lt sk have "parse_elements (acc @ [v]) (skip_ws r1) = Some (vs, r)"
        by simp
      with 2(2) [OF pv refl lt sk True] have "length r < length (skip_ws r1)" by blast
      with l1 lt length_skip_ws [of r1] show ?thesis by linarith
    next
      case False
      with a' pv lt sk have "r = r1"
        by (simp split: if_splits)
      with l1 lt show ?thesis by simp
    qed
  qed
next
  case (3 acc s)
  show ?case
  proof (intro allI impI)
    fix ms r assume a: "parse_members acc s = Some (ms, r)"
    note a' = a [unfolded parse_members.simps [of acc s]]
    from a' obtain q t where s: "s = q # t" and q: "q = CHR 0x22"
      by (cases s) (auto split: if_splits)
    from a' s q obtain k r1 where ss: "scan_string [] t = Some (k, r1)"
      by (auto split: option.splits)
    from a' s q ss obtain c r2 where sk1: "skip_ws r1 = c # r2" and c: "c = CHR '':''"
      by (cases "skip_ws r1") (auto split: if_splits)
    from a' s q ss sk1 c obtain v r3 where pv: "parse_value (skip_ws r2) = Some (v, r3)"
      and lt: "length r3 < length s"
      by (auto split: option.splits if_splits)
    from a' s q ss sk1 c pv lt obtain d r4 where sk2: "skip_ws r3 = d # r4"
      by (cases "skip_ws r3") auto
    have l4: "length r4 < length r3" using length_skip_ws [of r3] sk2 by simp
    show "length r < length s"
    proof (cases "d = CHR '',''")
      case True
      with a' s q ss sk1 c pv lt sk2 have "parse_members (acc @ [(k, v)]) (skip_ws r4) = Some (ms, r)"
        by simp
      with 3(2) [OF s q ss refl sk1 c pv refl lt sk2 True] have "length r < length (skip_ws r4)"
        by blast
      with l4 lt length_skip_ws [of r4] show ?thesis by linarith
    next
      case False
      with a' s q ss sk1 c pv lt sk2 have "r = r4"
        by (simp split: if_splits)
      with l4 lt show ?thesis by simp
    qed
  qed
qed

subsection \<open>strconv.ParseInt(s, 10, 64)\<close>

datatype num_error = ErrSyntax | ErrRange

text \<open>The bounds of the 64-bit integers, written out.\<close>

definition maxUint64 :: nat where
  "maxUint64 = 18446744073709551615"

definition cutoff_int64 :: nat where
  "cutoff_int64 = 9223372036854775808"

lemma maxUint64_eq: "maxUint64 = 2 ^ 64 - 1"
  by (simp add: maxUint64_def)

lemma cutoff_int64_eq: "cutoff_int64 = 2 ^ 63"
  by (simp add: cutoff_int64_def)

text \<open>
  The digit loop of \<open>ParseUint\<close>: a byte that is no decimal digit is a syntax error; the
  value leaving 64 bits is a range error, reported as soon as it happens.
\<close>

fun parseUint_loop :: "nat \<Rightarrow> string \<Rightarrow> num_error + nat" where
  "parseUint_loop n [] = Inr n"
| "parseUint_loop n (c # cs) =
     (if is_digit c then
        (if n \<ge> maxUint64 div 10 + 1 then Inl ErrRange
         else if n * 10 + (of_char c - 48) > maxUint64 then Inl ErrRange
         else parseUint_loop (n * 10 + (of_char c - 48)) cs)
      else Inl ErrSyntax)"

definition ParseUint :: "string \<Rightarrow> num_error + nat" where
  "ParseUint s = (if s = [] then Inl ErrSyntax else parseUint_loop 0 s)"

text \<open>
  \<open>ParseInt\<close>: an optional sign, then \<open>ParseUint\<close>, then the range of the signed type.
\<close>

definition ParseInt :: "string \<Rightarrow> num_error + int" where
  "ParseInt s =
     (if s = [] then Inl ErrSyntax
      else
        let neg = (hd s = CHR ''-'');
            s' = (if hd s = CHR ''+'' \<or> hd s = CHR ''-'' then tl s else s)
        in case ParseUint s' of
             Inl ErrSyntax \<Rightarrow> Inl ErrSyntax
           | Inl ErrRange \<Rightarrow> Inl ErrRange
           | Inr un \<Rightarrow>
               if \<not> neg \<and> un \<ge> cutoff_int64 then Inl ErrRange
               else if neg \<and> un > cutoff_int64 then Inl ErrRange
               else Inr (if neg then - int un else int un))"

section \<open>JsonRpcResponse and its lenient decoder (common/json\_rpc.go)\<close>

text \<open>
  What the file uses and does not define.  The numeric values of the JSON-RPC error
  numbers are declared elsewhere in the package; the rest belongs to the Go runtime and
  library: \<open>strconv.ParseFloat\<close> (\<open>None\<close> when the literal is out of range), the
  conversion \<open>int(f)\<close> of a \<open>float64\<close>, \<open>fmt.Sprintf("%v", v)\<close>, and the case table
  behind \<open>strings.ToLower\<close>, by which the decoder matches the name of a member with
  the name of a field.
\<close>

record error_numbers =
  JsonRpcErrorCapacityExceeded :: int
  JsonRpcErrorUnauthorized :: int
  JsonRpcErrorServerSideException :: int

record go_lib =
  ParseFloat :: "string \<Rightarrow> 64 word option"
  float64_to_int :: "64 word \<Rightarrow> int"
  Sprintf_v :: "gvalue \<Rightarrow> string"
  LowerCase :: case_table

text \<open>\<open>NewErrJsonRpcExceptionExternal(code, message, data)\<close> keeps its three arguments.\<close>

record ErrJsonRpcExceptionExternal =
  Code :: int
  Message :: string
  Data :: string

text \<open>
  A \<open>json.RawMessage\<close> is the text of one JSON value, kept undecoded; it is modelled by
  the syntax tree of that text, and \<open>nil\<close> by \<open>None\<close>.  A \<open>nil\<close> interface is \<open>None\<close>.
\<close>

record JsonRpcResponse =
  JSONRPC :: string
  ID :: "gvalue option"
  Result :: "json option"
  Error :: "ErrJsonRpcExceptionExternal option"
  parsedResult :: "gvalue option"

datatype decode_error = SyntaxError | MismatchType | NilPointerDereference

text \<open>The assignment \<open>m[k] = v\<close> on a map given by its entries.\<close>

fun map_store :: "string \<Rightarrow> 'v \<Rightarrow> (string \<times> 'v) list \<Rightarrow> (string \<times> 'v) list" where
  "map_store k v [] = [(k, v)]"
| "map_store k v ((k', v') # m) = (if k' = k then (k, v) # m else (k', v') # map_store k v m)"

text \<open>
  A JSON value decoded into an \<open>interface{}\<close>: numbers become \<open>float64\<close>, strings Go
  strings, objects maps (a repeated key keeps its last value), \<open>null\<close> the \<open>nil\<close>
  interface.  The decoding fails, with a syntax error, on a number out of range and on
  a string or a key with a wrong escape.
\<close>

fun to_interface :: "go_lib \<Rightarrow> json \<Rightarrow> gvalue option"
  and to_slice :: "go_lib \<Rightarrow> json list \<Rightarrow> gvalue list option"
  and to_map :: "go_lib \<Rightarrow> (string \<times> gvalue) list \<Rightarrow> (string \<times> json) list
                  \<Rightarrow> (string \<times> gvalue) list option"
where
  "to_interface lib JNull = Some (VOther ''<nil>'')"
| "to_interface lib (JBool b) = Some (VBool b)"
| "to_interface lib (JNumber lit) = map_option VFloat64 (ParseFloat lib lit)"
| "to_interface lib (JString s) = map_option VString (unquote s)"
| "to_interface lib (JArray vs) = map_option VSlice (to_slice lib vs)"
| "to_interface lib (JObject ms) = map_option VMap (to_map lib [] ms)"
| "to_slice lib [] = Some []"
| "to_slice lib (v # vs) =
     (case to_interface lib v of
        None \<Rightarrow> None
      | Some x \<Rightarrow> map_option ((#) x) (to_slice lib vs))"
| "to_map lib m [] = Some m"
| "to_map lib m ((k, v) # ms) =
     (case unquote k of
        None \<Rightarrow> None
      | Some key \<Rightarrow>
          (case to_interface lib v of
             None \<Rightarrow> None
           | Some x \<Rightarrow> to_map lib (map_store key x m) ms))"

text \<open>
  The field that a member of an object goes to: the name of the member, decoded and in
  lower case, is looked up among the names of the fields.
\<close>

definition field_of :: "go_lib \<Rightarrow> string \<Rightarrow> string option" where
  "field_of lib k = map_option (ToLower (LowerCase lib)) (unquote k)"

text \<open>A member decoded into a field of type \<open>string\<close>; \<open>null\<close> leaves the field as it is.\<close>

definition string_field :: "json \<Rightarrow> string \<Rightarrow> decode_error + string" where
  "string_field v old =
     (case v of
        JString s \<Rightarrow> (case unquote s of None \<Rightarrow> Inl SyntaxError | Some x \<Rightarrow> Inr x)
      | JNull \<Rightarrow> Inr old
      | _ \<Rightarrow> Inl MismatchType)"

text \<open>
  The members of an object stored into the fields of \<open>aux\<close>, in their order.  The field
  \<open>error\<close> of \<open>aux\<close> hides that of the embedded response; the other fields are those of
  the response \<open>r\<close> itself.  The two raw fields keep the text of their member.
\<close>

fun decode_aux :: "go_lib \<Rightarrow> (string \<times> json) list \<Rightarrow> json option \<times> JsonRpcResponse
                     \<Rightarrow> decode_error + json option \<times> JsonRpcResponse" where
  "decode_aux lib [] st = Inr st"
| "decode_aux lib ((k, v) # ms) (e, r) =
     (case field_of lib k of
        None \<Rightarrow> Inl SyntaxError
      | Some f \<Rightarrow>
          if f = ''error'' then decode_aux lib ms (Some v, r)
          else if f = ''jsonrpc'' then
            (case string_field v (JSONRPC r) of
               Inl err \<Rightarrow> Inl err
             | Inr s \<Rightarrow> decode_aux lib ms (e, r\<lparr>JSONRPC := s\<rparr>))
          else if f = ''id'' then
            (case v of
               JNull \<Rightarrow> decode_aux lib ms (e, r\<lparr>ID := None\<rparr>)
             | _ \<Rightarrow>
                 (case to_interface lib v of
                    None \<Rightarrow> Inl SyntaxError
                  | Some x \<Rightarrow> decode_aux lib ms (e, r\<lparr>ID := Some x\<rparr>)))
          else if f = ''result'' then decode_aux lib ms (e, r\<lparr>Result := Some v\<rparr>)
          else decode_aux lib ms (e, r))"

text \<open>
  \<open>sonic.Unmarshal(data, &aux)\<close>, with \<open>aux\<close> a pointer to the struct: the JSON literal
  \<open>null\<close> sets the pointer to \<open>nil\<close> (\<open>None\<close>); anything but an object is a type error.
\<close>

definition Unmarshal_aux :: "go_lib \<Rightarrow> string \<Rightarrow> JsonRpcResponse
    \<Rightarrow> decode_error + (json option \<times> JsonRpcResponse) option" where
  "Unmarshal_aux lib data r =
     (case parse_json data of
        None \<Rightarrow> Inl SyntaxError
      | Some JNull \<Rightarrow> Inr None
      | Some (JObject ms) \<Rightarrow>
          (case decode_aux lib ms (None, r) of Inl err \<Rightarrow> Inl err | Inr aux \<Rightarrow> Inr (Some aux))
      | Some _ \<Rightarrow> Inl MismatchType)"

text \<open>The struct \<open>sp1\<close>: an \<open>int\<close> and two strings.\<close>

fun decode_sp1 :: "go_lib \<Rightarrow> (string \<times> json) list \<Rightarrow> int \<times> string \<times> string
                     \<Rightarrow> decode_error + int \<times> string \<times> string" where
  "decode_sp1 lib [] st = Inr st"
| "decode_sp1 lib ((k, v) # ms) (c, m, d) =
     (case field_of lib k of
        None \<Rightarrow> Inl SyntaxError
      | Some f \<Rightarrow>
          if f = ''code'' then
            (case v of
               JNumber lit \<Rightarrow>
                 (case ParseInt lit of
                    Inl _ \<Rightarrow> Inl MismatchType
                  | Inr n \<Rightarrow> decode_sp1 lib ms (n, m, d))
             | JNull \<Rightarrow> decode_sp1 lib ms (c, m, d)
             | _ \<Rightarrow> Inl MismatchType)
          else if f = ''message'' then
            (case string_field v m of
               Inl err \<Rightarrow> Inl err
             | Inr s \<Rightarrow> decode_sp1 lib ms (c, s, d))
          else if f = ''data'' then
            (case string_field v d of
               Inl err \<Rightarrow> Inl err
             | Inr s \<Rightarrow> decode_sp1 lib ms (c, m, s))
          else decode_sp1 lib ms (c, m, d))"

definition Unmarshal_sp1 :: "go_lib \<Rightarrow> string \<Rightarrow> decode_error + (int \<times> string \<times> string) option" where
  "Unmarshal_sp1 lib data =
     (case parse_json data of
        None \<Rightarrow> Inl SyntaxError
      | Some JNull \<Rightarrow> Inr None
      | Some (JObject ms) \<Rightarrow>
          (case decode_sp1 lib ms (0, '''', '''') of
             Inl err \<Rightarrow> Inl err
           | Inr sp1 \<Rightarrow> Inr (Some sp1))
      | Some _ \<Rightarrow> Inl MismatchType)"

text \<open>The struct \<open>sp2\<close>: one string.\<close>

fun decode_sp2 :: "go_lib \<Rightarrow> (string \<times> json) list \<Rightarrow> string \<Rightarrow> decode_error + string" where
  "decode_sp2 lib [] st = Inr st"
| "decode_sp2 lib ((k, v) # ms) e =
     (case field_of lib k of
        None \<Rightarrow> Inl SyntaxError
      | Some f \<Rightarrow>
          if f = ''error'' then
            (case string_field v e of
               Inl err \<Rightarrow> Inl err
             | Inr s \<Rightarrow> decode_sp2 lib ms s)
          else decode_sp2 lib ms e)"

definition Unmarshal_sp2 :: "go_lib \<Rightarrow> string \<Rightarrow> decode_error + string option" where
  "Unmarshal_sp2 lib data =
     (case parse_json data of
        None \<Rightarrow> Inl SyntaxError
      | Some JNull \<Rightarrow> Inr None
      | Some (JObject ms) \<Rightarrow>
          (case decode_sp2 lib ms '''' of Inl err \<Rightarrow> Inl err | Inr sp2 \<Rightarrow> Inr (Some sp2))
      | Some _ \<Rightarrow> Inl MismatchType)"

text \<open>
  \<open>sonic.Unmarshal(aux.Error, &customObjectError)\<close> into a \<open>map[string]interface{}\<close>
  (\<open>null\<close> leaves the map \<open>nil\<close>), and \<open>sonic.Unmarshal(aux.Error, &customStringError)\<close>
  into a string.
\<close>

definition Unmarshal_map :: "go_lib \<Rightarrow> json \<Rightarrow> decode_error + (string \<times> gvalue) list" where
  "Unmarshal_map lib raw =
     (case raw of
        JNull \<Rightarrow> Inr []
      | JObject ms \<Rightarrow> (case to_map lib [] ms of None \<Rightarrow> Inl SyntaxError | Some m \<Rightarrow> Inr m)
      | _ \<Rightarrow> Inl MismatchType)"

definition Unmarshal_string :: "json \<Rightarrow> decode_error + string" where
  "Unmarshal_string raw = string_field raw ''''"

text \<open>The branch \<open>aux.Error != nil\<close>: the error built from the \<open>error\<close> member.\<close>

definition error_of_member :: "error_numbers \<Rightarrow> go_lib \<Rightarrow> json \<Rightarrow> ErrJsonRpcExceptionExternal" where
  "error_of_member nums lib raw =
     (case Unmarshal_map lib raw of
        Inr customObjectError \<Rightarrow>
          \<lparr>Code = (case map_of customObjectError ''code'' of
                     Some (VFloat64 cf) \<Rightarrow> float64_to_int lib cf
                   | _ \<Rightarrow> 0),
           Message = (case map_of customObjectError ''message'' of
                        Some (VString tm) \<Rightarrow> tm
                      | _ \<Rightarrow> ''''),
           Data = (case map_of customObjectError ''data'' of
                     None \<Rightarrow> ''''
                   | Some (VString dt) \<Rightarrow> dt
                   | Some d \<Rightarrow> Sprintf_v lib d)\<rparr>
      | Inl _ \<Rightarrow>
          (case Unmarshal_string raw of
             Inr customStringError \<Rightarrow>
               \<lparr>Code = JsonRpcErrorServerSideException nums, Message = customStringError,
                Data = ''''\<rparr>
           | Inl _ \<Rightarrow> \<lparr>Code = 0, Message = '''', Data = ''''\<rparr>))"

text \<open>
  The branch for a body that is no JSON-RPC response (no error, no result, no id), from
  its end: the three ways of reporting the body (lines 141 to 159), special case 2,
  special case 1.  Reading a field through a \<open>nil\<close> pointer panics.
\<close>

definition unexpected_body :: "error_numbers \<Rightarrow> string \<Rightarrow> ErrJsonRpcExceptionExternal" where
  "unexpected_body nums data =
     (if length data = 0 then
        \<lparr>Code = JsonRpcErrorServerSideException nums,
         Message = ''unexpected empty response from upstream endpoint'', Data = ''''\<rparr>
      else if hd data = CHR ''{'' \<or> hd data = CHR ''['' then
        \<lparr>Code = JsonRpcErrorServerSideException nums,
         Message = ''unexpected response json structure from upstream: '' @ data, Data = ''''\<rparr>
      else
        \<lparr>Code = JsonRpcErrorServerSideException nums, Message = data, Data = ''''\<rparr>)"

definition special_case_2 ::
  "error_numbers \<Rightarrow> go_lib \<Rightarrow> string \<Rightarrow> decode_error + ErrJsonRpcExceptionExternal" where
  "special_case_2 nums lib data =
     (case Unmarshal_sp2 lib data of
        Inl _ \<Rightarrow> Inr (unexpected_body nums data)
      | Inr None \<Rightarrow> Inl NilPointerDereference
      | Inr (Some sp2_Error) \<Rightarrow>
          if sp2_Error \<noteq> '''' then
            Inr \<lparr>Code = JsonRpcErrorServerSideException nums, Message = sp2_Error, Data = ''''\<rparr>
          else Inr (unexpected_body nums data))"

definition special_case_1 ::
  "error_numbers \<Rightarrow> go_lib \<Rightarrow> string \<Rightarrow> decode_error + ErrJsonRpcExceptionExternal" where
  "special_case_1 nums lib data =
     (case Unmarshal_sp1 lib data of
        Inl _ \<Rightarrow> special_case_2 nums lib data
      | Inr None \<Rightarrow> Inl NilPointerDereference
      | Inr (Some (sp1_Code, sp1_Message, sp1_Data)) \<Rightarrow>
          if sp1_Code \<noteq> 0 \<or> sp1_Message \<noteq> '''' \<or> sp1_Data \<noteq> '''' then
            Inr \<lparr>Code = sp1_Code, Message = sp1_Message, Data = sp1_Data\<rparr>
          else special_case_2 nums lib data)"

text \<open>
  \<open>UnmarshalJSON\<close>.  The receiver may be \<open>nil\<close> (\<open>None\<close>).  \<open>Inl\<close> is the error returned
  (or the panic), \<open>Inr\<close> the receiver after a return of \<open>nil\<close>.  The error of the first
  \<open>sonic.Unmarshal\<close> is returned at once (lines 106 to 108).
\<close>

definition UnmarshalJSON :: "error_numbers \<Rightarrow> go_lib \<Rightarrow> JsonRpcResponse option \<Rightarrow> string
    \<Rightarrow> decode_error + JsonRpcResponse option" where
  "UnmarshalJSON nums lib r data =
     (case r of
        None \<Rightarrow> Inr None
      | Some r0 \<Rightarrow>
          (case Unmarshal_aux lib data r0 of
             Inl err \<Rightarrow> Inl err
           | Inr None \<Rightarrow> Inl NilPointerDereference
           | Inr (Some (aux_Error, r1)) \<Rightarrow>
               if aux_Error = None \<and> Result r1 = None \<and> ID r1 = None then
                 (case special_case_1 nums lib data of
                    Inl err \<Rightarrow> Inl err
                  | Inr e \<Rightarrow> Inr (Some (r1\<lparr>Error := Some e\<rparr>)))
               else
                 (case aux_Error of
                    Some raw \<Rightarrow> Inr (Some (r1\<lparr>Error := Some (error_of_member nums lib raw)\<rparr>))
                  | None \<Rightarrow> Inr (Some r1))))"

text \<open>A response before anything is decoded into it: the zero value of the struct.\<close>

definition empty_response :: JsonRpcResponse where
  "empty_response = \<lparr>JSONRPC = '''', ID = None, Result = None, Error = None, parsedResult = None\<rparr>"

text \<open>Exactly one of the result and the error is present.\<close>

definition exactly_one_of :: "JsonRpcResponse \<Rightarrow> bool" where
  "exactly_one_of r = ((Result r = None) \<noteq> (Error r = None))"

text \<open>
  A fixed choice of the parameters, for the closed instances below; none of them reaches
  a conversion of the library or a rune beyond ASCII.
\<close>

definition sample_numbers :: error_numbers where
  "sample_numbers = \<lparr>JsonRpcErrorCapacityExceeded = -32005, JsonRpcErrorUnauthorized = -32016,
     JsonRpcErrorServerSideException = -32603\<rparr>"

definition sample_lib :: go_lib where
  "sample_lib = \<lparr>ParseFloat = (\<lambda>lit. None), float64_to_int = (\<lambda>f. 0), Sprintf_v = (\<lambda>v. []),
     LowerCase = sample_lowerCase\<rparr>"

section \<open>Properties of the response decoder\<close>

lemma parse_json_empty_object: "parse_json ''{}'' = Some (JObject [])"
  by code_simp

lemma parse_json_empty: "parse_json [] = None"
  by code_simp

lemma parse_json_plain_text: "parse_json ''Bad Gateway'' = None"
  by code_simp

lemma parse_json_empty_array: "parse_json ''[]'' = Some (JArray [])"
  by code_simp

lemma parse_json_null: "parse_json ''null'' = Some JNull"
  by code_simp

text \<open>
  Claim C1.  The claim asks that every body, the empty one and plain text among them,
  is decoded without an error into a response with a result or an error.  In the code
  the error of the first \<open>sonic.Unmarshal\<close> is returned at once, so that the branches
  which build the error for the empty body, for a body that starts with \<open>[\<close> and for
  plain text are never reached by these bodies: the empty body and plain text end in the
  syntax error of the decoder, an array in its type error, and \<open>null\<close> in the panic of
  reading a field through the \<open>nil\<close> pointer.
\<close>

theorem UnmarshalJSON_fails_outright:
  "UnmarshalJSON nums lib (Some r) '''' = Inl SyntaxError
   \<and> UnmarshalJSON nums lib (Some r) ''Bad Gateway'' = Inl SyntaxError
   \<and> UnmarshalJSON nums lib (Some r) ''[]'' = Inl MismatchType
   \<and> UnmarshalJSON nums lib (Some r) ''null'' = Inl NilPointerDereference"
  by (simp add: UnmarshalJSON_def Unmarshal_aux_def parse_json_empty parse_json_plain_text
      parse_json_empty_array parse_json_null)

text \<open>
  More generally, a body that is no JSON object never gets a response, and what the
  unreachable branches would have reported for the three kinds of body.
\<close>

lemma UnmarshalJSON_not_an_object:
  assumes "\<forall>ms. parse_json data \<noteq> Some (JObject ms)"
  shows "\<exists>err. UnmarshalJSON nums lib (Some r) data = Inl err"
proof (cases "parse_json data")
  case None
  then show ?thesis by (simp add: UnmarshalJSON_def Unmarshal_aux_def)
next
  case (Some v)
  with assms show ?thesis
    by (cases v) (simp_all add: UnmarshalJSON_def Unmarshal_aux_def)
qed

lemma unexpected_body_cases:
  "Message (unexpected_body nums '''') = ''unexpected empty response from upstream endpoint''"
  "Message (unexpected_body nums ''[]'') = ''unexpected response json structure from upstream: []''"
  "Message (unexpected_body nums ''Bad Gateway'') = ''Bad Gateway''"
  by (simp_all add: unexpected_body_def)

text \<open>
  Claim C2, as amended.  Decoding the body \<open>{}\<close> into an empty response gives the error
  with the server-side-exception code and the message
  \<open>unexpected response json structure from upstream: {}\<close>.
\<close>

theorem UnmarshalJSON_empty_object:
  "UnmarshalJSON nums lib (Some empty_response) ''{}''
   = Inr (Some (empty_response\<lparr>Error := Some \<lparr>Code = JsonRpcErrorServerSideException nums,
        Message = ''unexpected response json structure from upstream: {}'', Data = ''''\<rparr>\<rparr>))"
  by (simp add: UnmarshalJSON_def Unmarshal_aux_def parse_json_empty_object empty_response_def
      special_case_1_def special_case_2_def Unmarshal_sp1_def Unmarshal_sp2_def unexpected_body_def)

text \<open>
  The claim as stated fails: the message for \<open>{}\<close> is not
  \<open>unexpected empty response from upstream endpoint\<close>; the body has two bytes and starts
  with \<open>{\<close>, which is the branch of the other message.
\<close>

theorem UnmarshalJSON_empty_object_message:
  "UnmarshalJSON sample_numbers sample_lib (Some empty_response) ''{}''
   = Inr (Some (empty_response\<lparr>Error := Some \<lparr>Code = -32603,
        Message = ''unexpected response json structure from upstream: {}'', Data = ''''\<rparr>\<rparr>))
   \<and> ''unexpected response json structure from upstream: {}''
       \<noteq> ''unexpected empty response from upstream endpoint''"
  by (simp add: UnmarshalJSON_def Unmarshal_aux_def parse_json_empty_object empty_response_def
      special_case_1_def special_case_2_def Unmarshal_sp1_def Unmarshal_sp2_def unexpected_body_def
      sample_numbers_def)

subsection \<open>Bodies that are JSON objects\<close>

lemma decode_aux_Error:
  "decode_aux lib ms (e, r) = Inr (e', r') \<Longrightarrow> Error r' = Error r"
proof (induction ms arbitrary: e r)
  case Nil
  then show ?case by simp
next
  case (Cons kv ms)
  obtain k v where kv: "kv = (k, v)" by (cases kv)
  from Cons.prems show ?case
    unfolding kv
    by (auto split: if_splits json.splits option.splits sum.splits dest: Cons.IH)
qed

lemma Unmarshal_aux_object:
  assumes "Unmarshal_aux lib data r = Inr (Some aux)"
  shows "\<exists>ms. parse_json data = Some (JObject ms) \<and> decode_aux lib ms (None, r) = Inr aux"
  using assms
  by (auto simp: Unmarshal_aux_def split: option.splits json.splits sum.splits)

lemma special_case_2_object:
  assumes "parse_json data = Some (JObject ms)"
  shows "\<exists>e. special_case_2 nums lib data = Inr e"
  using assms by (auto simp: special_case_2_def Unmarshal_sp2_def split: sum.splits)

lemma special_case_1_object:
  assumes "parse_json data = Some (JObject ms)"
  shows "\<exists>e. special_case_1 nums lib data = Inr e"
  using assms special_case_2_object [OF assms, of nums lib]
  by (auto simp: special_case_1_def Unmarshal_sp1_def split: sum.splits)

text \<open>
  When the first \<open>sonic.Unmarshal\<close> succeeds, \<open>UnmarshalJSON\<close> returns no error.  The
  guard of line 111 asks for no error, no result and no id, so a response gets its
  error from the \<open>error\<close> member or from that branch, and none otherwise.
\<close>

lemma UnmarshalJSON_decoded:
  assumes "Unmarshal_aux lib data empty_response = Inr (Some (aux_Error, r1))"
  shows "\<exists>r'. UnmarshalJSON nums lib (Some empty_response) data = Inr (Some r')
           \<and> Result r' = Result r1
           \<and> (Error r' = None \<longleftrightarrow> aux_Error = None \<and> (Result r1 \<noteq> None \<or> ID r1 \<noteq> None))"
proof -
  from Unmarshal_aux_object [OF assms] obtain ms
    where p: "parse_json data = Some (JObject ms)"
      and d: "decode_aux lib ms (None, empty_response) = Inr (aux_Error, r1)"
    by blast
  from decode_aux_Error [OF d] have e1: "Error r1 = None" by (simp add: empty_response_def)
  from special_case_1_object [OF p] obtain e where sc: "special_case_1 nums lib data = Inr e"
    by blast
  show ?thesis
  proof (cases "aux_Error = None \<and> Result r1 = None \<and> ID r1 = None")
    case True
    then have "UnmarshalJSON nums lib (Some empty_response) data = Inr (Some (r1\<lparr>Error := Some e\<rparr>))"
      using assms sc by (simp add: UnmarshalJSON_def)
    with True show ?thesis by simp
  next
    case False
    show ?thesis
    proof (cases aux_Error)
      case None
      with False have "UnmarshalJSON nums lib (Some empty_response) data = Inr (Some r1)"
        using assms by (auto simp: UnmarshalJSON_def)
      with None False e1 show ?thesis by auto
    next
      case (Some raw)
      then have "UnmarshalJSON nums lib (Some empty_response) data
          = Inr (Some (r1\<lparr>Error := Some (error_of_member nums lib raw)\<rparr>))"
        using assms by (simp add: UnmarshalJSON_def)
      with Some show ?thesis by auto
    qed
  qed
qed

text \<open>
  Three bodies: a successful response; a response with an id and neither result nor
  error, which passes the guard and is left with neither; an error given as a string.
\<close>

lemma UnmarshalJSON_result:
  \<open>UnmarshalJSON sample_numbers sample_lib (Some empty_response)
        ''{"jsonrpc":"2.0","id":"1","result":"0x1"}''
     = Inr (Some (empty_response\<lparr>JSONRPC := ''2.0'', ID := Some (VString ''1''),
                  Result := Some (JString ''0x1'')\<rparr>))\<close>
  by code_simp

lemma UnmarshalJSON_id_only:
  \<open>UnmarshalJSON sample_numbers sample_lib (Some empty_response) ''{"jsonrpc":"2.0","id":"1"}''
   = Inr (Some (empty_response\<lparr>JSONRPC := ''2.0'', ID := Some (VString ''1'')\<rparr>))
   \<and> \<not> exactly_one_of (empty_response\<lparr>JSONRPC := ''2.0'', ID := Some (VString ''1'')\<rparr>)\<close>
  by code_simp

lemma UnmarshalJSON_error_string:
  \<open>UnmarshalJSON sample_numbers sample_lib (Some empty_response) ''{"error":"boom"}''
   = Inr (Some (empty_response\<lparr>Error := Some \<lparr>Code = -32603, Message = ''boom'', Data = ''''\<rparr>\<rparr>))\<close>
  by code_simp

section \<open>TranslateToJsonRpcException (common/json\_rpc.go)\<close>

text \<open>
  The error codes the translator asks for; every other code of the package is
  \<open>ErrCodeOther\<close>.
\<close>

datatype ErrorCode =
    ErrCodeJsonRpcExceptionInternal
  | ErrCodeAuthRateLimitRuleExceeded
  | ErrCodeProjectRateLimitRuleExceeded
  | ErrCodeNetworkRateLimitRuleExceeded
  | ErrCodeUpstreamRateLimitRuleExceeded
  | ErrCodeAuthUnauthorized
  | ErrCodeOther string

text \<open>
  What the translator observes of an error, through functions the file does not define:
  \<open>HasErrorCode(err, codes...)\<close>, and the type assertion \<open>err.(StandardError)\<close> followed
  by \<open>DeepestMessage()\<close> (\<open>None\<close> when the assertion fails).  The type \<open>'e\<close> of errors
  is left open.
\<close>

record 'e error_ops =
  HasErrorCode :: "'e \<Rightarrow> ErrorCode list \<Rightarrow> bool"
  DeepestMessage :: "'e \<Rightarrow> string option"

text \<open>
  The error returned: \<open>err\<close> itself, or the one built by
  \<open>NewErrJsonRpcExceptionInternal(originalCode, normalizedCode, message, cause, nil)\<close>,
  kept as the call with its first four arguments.
\<close>

datatype 'e translated =
    Unchanged 'e
  | NewErrJsonRpcExceptionInternal int int string 'e

definition TranslateToJsonRpcException :: "error_numbers \<Rightarrow> 'e error_ops \<Rightarrow> 'e \<Rightarrow> 'e translated" where
  "TranslateToJsonRpcException nums ops err =
     (if HasErrorCode ops err [ErrCodeJsonRpcExceptionInternal] then Unchanged err
      else if HasErrorCode ops err
                [ErrCodeAuthRateLimitRuleExceeded, ErrCodeProjectRateLimitRuleExceeded,
                 ErrCodeNetworkRateLimitRuleExceeded, ErrCodeUpstreamRateLimitRuleExceeded]
      then NewErrJsonRpcExceptionInternal 0 (JsonRpcErrorCapacityExceeded nums)
             ''rate-limit exceeded'' err
      else if HasErrorCode ops err [ErrCodeAuthUnauthorized]
      then NewErrJsonRpcExceptionInternal 0 (JsonRpcErrorUnauthorized nums) ''unauthorized'' err
      else
        NewErrJsonRpcExceptionInternal 0 (JsonRpcErrorServerSideException nums)
          (case DeepestMessage ops err of
             None \<Rightarrow> ''internal server error''
           | Some msg \<Rightarrow> msg)
          err)"

text \<open>
  Errors given by the codes they are classified under and by their deepest message when
  they are standard errors, for the instances.
\<close>

definition sample_ops :: "(ErrorCode list \<times> string option) error_ops" where
  "sample_ops = \<lparr>HasErrorCode = (\<lambda>err codes. set codes \<inter> set (fst err) \<noteq> {}),
                 DeepestMessage = snd\<rparr>"

section \<open>The DRPC client adapter (upstream, second file of the source)\<close>

definition drpcNetworkNames :: "(int \<times> string) list" where
  "drpcNetworkNames =
    [(1, ''ethereum''), (10, ''optimism''), (100, ''gnosis''), (1001, ''klaytn-baobab''),
     (10200, ''gnosis-chiado''), (108, ''thundercore''), (1088, ''metis''),
     (10888, ''gameswift-testnet''), (1100, ''dymension''), (1101, ''polygon-zkevm''),
     (1111, ''wemix''), (111188, ''real''), (1112, ''wemix-testnet''),
     (1115, ''core-testnet''), (11155111, ''sepolia''), (11155420, ''optimism-sepolia''),
     (1116, ''core''), (11235, ''haqq''), (1135, ''lisk''), (122, ''fuse''),
     (123420111, ''opcelestia-raspberry-testnet''), (1284, ''moonbeam''),
     (1285, ''moonriver''), (1287, ''moonbase-alpha''), (1313161554, ''aurora''),
     (1313161555, ''aurora-testnet''), (13371, ''immutable-zkevm''),
     (13473, ''immutable-zkevm-testnet''), (137, ''polygon''), (1666600000, ''harmony-0''),
     (1666600001, ''harmony-1''), (167000, ''taiko''), (167009, ''taiko-hekla''),
     (168587773, ''blast-sepolia''), (169, ''manta-pacific''), (17000, ''holesky''),
     (1740, ''metall2-testnet''), (1750, ''metall2''), (18, ''thundercore-testnet''),
     (1829, ''playnance''), (199, ''bittorrent''), (2020, ''ronin''),
     (2039, ''alephzero-sepolia''), (204, ''opbnb''), (2221, ''kava-testnet''),
     (2222, ''kava''), (2358, ''kroma-sepolia''), (2442, ''polygon-zkevm-cardona''),
     (245022926, ''neon-evm-devnet''), (245022934, ''neon-evm''),
     (2494104990, ''tron-shasta''), (25, ''cronos''), (250, ''fantom''), (252, ''fraxtal''),
     (2522, ''fraxtal-testnet''), (255, ''kroma''), (288, ''boba-eth''), (30, ''rootstock''),
     (300, ''zksync-sepolia''), (31, ''rootstock-testnet''), (314, ''filecoin''),
     (314159, ''filecoin-calibration''), (324, ''zksync''), (338, ''cronos-testnet''),
     (3441006, ''manta-pacific-sepolia''), (34443, ''mode''), (3456, ''goat-testnet''),
     (40, ''telos''), (4002, ''fantom-testnet''), (41, ''telos-testnet''),
     (41455, ''alephzero''), (4202, ''lisk-sepolia''), (42161, ''arbitrum''),
     (421614, ''arbitrum-sepolia''), (42170, ''arbitrum-nova''), (42220, ''celo''),
     (43113, ''avalanche-fuji''), (43114, ''avalanche''), (44787, ''celo-alfajores''),
     (48899, ''zircuit-testnet''), (48900, ''zircuit-mainnet''), (5000, ''mantle''),
     (5003, ''mantle-sepolia''), (534351, ''scroll-sepolia''), (534352, ''scroll''),
     (54211, ''haqq-testnet''), (56, ''bsc''), (5611, ''opbnb-testnet''),
     (56288, ''boba-bnb''), (59141, ''linea-sepolia''), (59144, ''linea''), (60808, ''bob''),
     (6398, ''everclear-sepolia''), (65, ''oktc-testnet''),
     (656476, ''open-campus-codex-sepolia''), (66, ''oktc''), (7000, ''zeta-chain''),
     (7001, ''zeta-chain-testnet''), (728126428, ''tron''), (7777777, ''zora''),
     (80002, ''polygon-amoy''), (80084, ''bartio''), (808813, ''bob-testnet''),
     (81457, ''blast''), (8217, ''klaytn''), (8453, ''base''), (84532, ''base-sepolia''),
     (88153591557, ''arb-blueberry-testnet''), (9000, ''evmos-testnet''), (9001, ''evmos''),
     (919, ''mode-testnet''), (94204209, ''polygon-blackberry-testnet''),
     (97, ''bsc-testnet''), (999999999, ''zora-sepolia'')]"

text \<open>\<open>strings.HasPrefix\<close>.\<close>

definition HasPrefix :: "string \<Rightarrow> string \<Rightarrow> bool" where
  "HasPrefix s p = (take (length p) s = p)"

text \<open>
  The adapter: its upstream (opaque), the API key and the clients by network id.  The
  mutex has no effect on a single caller and is left out.
\<close>

record ('u, 'c) DrpcHttpJsonRpcClient =
  upstream :: 'u
  apiKey :: string
  clients :: "string \<rightharpoonup> 'c"

text \<open>
  \<open>SupportsNetwork\<close> returns a boolean and an error (\<open>None\<close> for \<open>nil\<close>); the receiver
  is not used.
\<close>

definition SupportsNetwork :: "('u, 'c) DrpcHttpJsonRpcClient \<Rightarrow> string \<Rightarrow> bool \<times> num_error option" where
  "SupportsNetwork c networkId =
     (if \<not> HasPrefix networkId ''evm:'' then (False, None)
      else
        (case ParseInt (drop 4 networkId) of
           Inl err \<Rightarrow> (False, Some err)
         | Inr chainId \<Rightarrow> (map_of drpcNetworkNames chainId \<noteq> None, None)))"

text \<open>
  A \<open>common.Network\<close>, by what its three methods return.  An architecture is
  \<open>ArchitectureEvm\<close> or some other value of the type.
\<close>

datatype NetworkArchitecture = ArchitectureEvm | ArchitectureOther string

record 'x Network =
  Id :: string
  Architecture :: NetworkArchitecture
  EvmChainId :: "'x + int"

text \<open>
  The errors of \<open>getOrCreateClient\<close>: its own two, and those handed on from
  \<open>network.EvmChainId\<close>, \<open>url.Parse\<close> and \<open>NewGenericHttpJsonRpcClient\<close>.
\<close>

datatype 'x resolve_error =
    ErrUnsupportedArchitecture NetworkArchitecture
  | ErrUnsupportedChainID int
  | ErrExternal 'x

text \<open>The two functions \<open>getOrCreateClient\<close> calls and the file does not define.\<close>

record ('u, 'c, 'url, 'x) adapter_env =
  url_Parse :: "string \<Rightarrow> 'x + 'url"
  NewGenericHttpJsonRpcClient :: "'u \<Rightarrow> 'url \<Rightarrow> 'x + 'c"

text \<open>
  The part of \<open>getOrCreateClient\<close> between the second look-up and the store: the
  architecture, the chain id, the registry, the URL and the new client.
\<close>

definition newClient ::
  "('u, 'c, 'url, 'x) adapter_env \<Rightarrow> ('u, 'c) DrpcHttpJsonRpcClient \<Rightarrow> 'x Network
     \<Rightarrow> 'x resolve_error + 'c" where
  "newClient env c network =
     (if Architecture network \<noteq> ArchitectureEvm
      then Inl (ErrUnsupportedArchitecture (Architecture network))
      else
        (case EvmChainId network of
           Inl err \<Rightarrow> Inl (ErrExternal err)
         | Inr chainID \<Rightarrow>
             (case map_of drpcNetworkNames chainID of
                None \<Rightarrow> Inl (ErrUnsupportedChainID chainID)
              | Some netName \<Rightarrow>
                  (case url_Parse env
                          (''https://lb.drpc.org/ogrpc?network='' @ netName
                             @ ''&dkey='' @ apiKey c) of
                     Inl err \<Rightarrow> Inl (ErrExternal err)
                   | Inr parsedURL \<Rightarrow>
                       (case NewGenericHttpJsonRpcClient env (upstream c) parsedURL of
                          Inl err \<Rightarrow> Inl (ErrExternal err)
                        | Inr client \<Rightarrow> Inr client)))))"

text \<open>
  \<open>getOrCreateClient\<close> returns the client or an error, and the adapter as it leaves it.
  Both look-ups are kept: the one under the read lock and the one under the write lock.
\<close>

definition getOrCreateClient ::
  "('u, 'c, 'url, 'x) adapter_env \<Rightarrow> ('u, 'c) DrpcHttpJsonRpcClient \<Rightarrow> 'x Network
     \<Rightarrow> ('x resolve_error + 'c) \<times> ('u, 'c) DrpcHttpJsonRpcClient" where
  "getOrCreateClient env c network =
     (let networkID = Id network in
      case clients c networkID of
        Some client \<Rightarrow> (Inr client, c)
      | None \<Rightarrow>
          (case clients c networkID of
             Some client \<Rightarrow> (Inr client, c)
           | None \<Rightarrow>
               (case newClient env c network of
                  Inl err \<Rightarrow> (Inl err, c)
                | Inr client \<Rightarrow>
                    (Inr client, c\<lparr>clients := (clients c)(networkID \<mapsto> client)\<rparr>))))"

text \<open>An adapter with no client yet, and stand-ins for the two outer functions.\<close>

definition sample_adapter :: "(unit, string) DrpcHttpJsonRpcClient" where
  "sample_adapter = \<lparr>upstream = (), apiKey = ''key'', clients = Map.empty\<rparr>"

definition sample_env :: "(unit, string, string, string) adapter_env" where
  "sample_env = \<lparr>url_Parse = Inr, NewGenericHttpJsonRpcClient = (\<lambda>u parsedURL. Inr parsedURL)\<rparr>"


section \<open>Properties of the translator and of the adapter\<close>

text \<open>
  Claim C6.  \<open>TranslateToJsonRpcException\<close> is a total function and applies the first
  rule that matches: an error with the code of an internal JSON-RPC exception is returned
  unchanged; otherwise one with any of the four rate-limit codes becomes the
  capacity-exceeded error with message \<open>rate-limit exceeded\<close>; otherwise one with the
  unauthorized code becomes the unauthorized error with message \<open>unauthorized\<close>; every
  other becomes the server-side exception with the deepest message of the error when it
  is a standard error and \<open>internal server error\<close> when it is not.
\<close>

theorem Translate_policy:
  "(HasErrorCode ops err [ErrCodeJsonRpcExceptionInternal]
      \<longrightarrow> TranslateToJsonRpcException nums ops err = Unchanged err)
   \<and> (\<not> HasErrorCode ops err [ErrCodeJsonRpcExceptionInternal]
        \<and> HasErrorCode ops err
             [ErrCodeAuthRateLimitRuleExceeded, ErrCodeProjectRateLimitRuleExceeded,
              ErrCodeNetworkRateLimitRuleExceeded, ErrCodeUpstreamRateLimitRuleExceeded]
      \<longrightarrow> TranslateToJsonRpcException nums ops err
            = NewErrJsonRpcExceptionInternal 0 (JsonRpcErrorCapacityExceeded nums)
                ''rate-limit exceeded'' err)
   \<and> (\<not> HasErrorCode ops err [ErrCodeJsonRpcExceptionInternal]
        \<and> \<not> HasErrorCode ops err
             [ErrCodeAuthRateLimitRuleExceeded, ErrCodeProjectRateLimitRuleExceeded,
              ErrCodeNetworkRateLimitRuleExceeded, ErrCodeUpstreamRateLimitRuleExceeded]
        \<and> HasErrorCode ops err [ErrCodeAuthUnauthorized]
      \<longrightarrow> TranslateToJsonRpcException nums ops err
            = NewErrJsonRpcExceptionInternal 0 (JsonRpcErrorUnauthorized nums) ''unauthorized'' err)
   \<and> (\<not> HasErrorCode ops err [ErrCodeJsonRpcExceptionInternal]
        \<and> \<not> HasErrorCode ops err
             [ErrCodeAuthRateLimitRuleExceeded, ErrCodeProjectRateLimitRuleExceeded,
              ErrCodeNetworkRateLimitRuleExceeded, ErrCodeUpstreamRateLimitRuleExceeded]
        \<and> \<not> HasErrorCode ops err [ErrCodeAuthUnauthorized]
      \<longrightarrow> TranslateToJsonRpcException nums ops err
            = NewErrJsonRpcExceptionInternal 0 (JsonRpcErrorServerSideException nums)
                (case DeepestMessage ops err of None \<Rightarrow> ''internal server error'' | Some msg \<Rightarrow> msg)
                err)"
  by (simp add: TranslateToJsonRpcException_def)

theorem Translate_policy_witness:
  "TranslateToJsonRpcException sample_numbers sample_ops
      ([ErrCodeJsonRpcExceptionInternal, ErrCodeAuthUnauthorized], Some ''inner'')
     = Unchanged ([ErrCodeJsonRpcExceptionInternal, ErrCodeAuthUnauthorized], Some ''inner'')
   \<and> TranslateToJsonRpcException sample_numbers sample_ops
      ([ErrCodeOther ''ErrUpstreamsExhausted'', ErrCodeNetworkRateLimitRuleExceeded], Some ''budget'')
     = NewErrJsonRpcExceptionInternal 0 (-32005) ''rate-limit exceeded''
         ([ErrCodeOther ''ErrUpstreamsExhausted'', ErrCodeNetworkRateLimitRuleExceeded], Some ''budget'')
   \<and> TranslateToJsonRpcException sample_numbers sample_ops ([ErrCodeAuthUnauthorized], Some ''bad token'')
     = NewErrJsonRpcExceptionInternal 0 (-32016) ''unauthorized'' ([ErrCodeAuthUnauthorized], Some ''bad token'')
   \<and> TranslateToJsonRpcException sample_numbers sample_ops ([ErrCodeOther ''ErrEndpointTimeout''], Some ''dial tcp: timeout'')
     = NewErrJsonRpcExceptionInternal 0 (-32603) ''dial tcp: timeout''
         ([ErrCodeOther ''ErrEndpointTimeout''], Some ''dial tcp: timeout'')
   \<and> TranslateToJsonRpcException sample_numbers sample_ops ([], None)
     = NewErrJsonRpcExceptionInternal 0 (-32603) ''internal server error'' ([], None)"
  using Translate_policy [of sample_ops "([ErrCodeJsonRpcExceptionInternal, ErrCodeAuthUnauthorized], Some ''inner'')" sample_numbers]
    Translate_policy [of sample_ops "([ErrCodeOther ''ErrUpstreamsExhausted'', ErrCodeNetworkRateLimitRuleExceeded], Some ''budget'')" sample_numbers]
    Translate_policy [of sample_ops "([ErrCodeAuthUnauthorized], Some ''bad token'')" sample_numbers]
    Translate_policy [of sample_ops "([ErrCodeOther ''ErrEndpointTimeout''], Some ''dial tcp: timeout'')" sample_numbers]
    Translate_policy [of sample_ops "([], None)" sample_numbers]
  by (simp add: sample_ops_def sample_numbers_def)

lemma map_of_registry_key:
  "map_of drpcNetworkNames k \<noteq> None \<longleftrightarrow> k \<in> fst ` set drpcNetworkNames"
  by (simp add: map_of_eq_None_iff)

text \<open>
  Claim C7.  \<open>SupportsNetwork\<close> returns true exactly when the identifier is \<open>evm:\<close>
  followed by a text that \<open>ParseInt\<close> reads as a chain id that is a key of
  \<open>drpcNetworkNames\<close>; without the prefix it returns false and no error; with the prefix
  and a suffix that \<open>ParseInt\<close> rejects it returns false and that error.
\<close>

theorem SupportsNetwork_spec:
  "(fst (SupportsNetwork c networkId)
      \<longleftrightarrow> (\<exists>chainId. HasPrefix networkId ''evm:'' \<and> ParseInt (drop 4 networkId) = Inr chainId
                      \<and> chainId \<in> fst ` set drpcNetworkNames))
   \<and> (\<not> HasPrefix networkId ''evm:'' \<longrightarrow> SupportsNetwork c networkId = (False, None))
   \<and> (\<forall>err. HasPrefix networkId ''evm:'' \<and> ParseInt (drop 4 networkId) = Inl err
          \<longrightarrow> SupportsNetwork c networkId = (False, Some err))"
proof (cases "HasPrefix networkId ''evm:''")
  case False
  then show ?thesis by (simp add: SupportsNetwork_def)
next
  case True
  show ?thesis
  proof (cases "ParseInt (drop 4 networkId)")
    case (Inl err)
    with True show ?thesis by (simp add: SupportsNetwork_def)
  next
    case (Inr chainId)
    with True have "SupportsNetwork c networkId = (map_of drpcNetworkNames chainId \<noteq> None, None)"
      by (simp add: SupportsNetwork_def)
    with True Inr map_of_registry_key [of chainId] show ?thesis by simp
  qed
qed

text \<open>
  Claim C8.  For a network whose chain id is not a key of \<open>drpcNetworkNames\<close>,
  \<open>getOrCreateClient\<close> leaves the adapter, and so its map of clients, as it was; when
  the network is an EVM network with no client in the map, the result is the
  unsupported-chain error.  Neither depends on the two outer functions, which are not
  called.
\<close>

theorem getOrCreateClient_unsupported_chain:
  assumes "EvmChainId network = Inr chainID" and "map_of drpcNetworkNames chainID = None"
  shows "snd (getOrCreateClient env c network) = c
         \<and> (Architecture network = ArchitectureEvm \<longrightarrow> clients c (Id network) = None
              \<longrightarrow> fst (getOrCreateClient env c network) = Inl (ErrUnsupportedChainID chainID))"
proof (cases "clients c (Id network)")
  case (Some client)
  then show ?thesis by (simp add: getOrCreateClient_def)
next
  case None
  show ?thesis
  proof (cases "Architecture network = ArchitectureEvm")
    case True
    with None assms show ?thesis by (simp add: getOrCreateClient_def newClient_def)
  next
    case False
    with None show ?thesis by (simp add: getOrCreateClient_def newClient_def)
  qed
qed


theorem SupportsNetwork_spec_witness:
  "fst (SupportsNetwork sample_adapter ''evm:1'')
   \<and> HasPrefix ''evm:1'' ''evm:'' \<and> ParseInt (drop 4 ''evm:1'') = Inr 1
   \<and> 1 \<in> fst ` set drpcNetworkNames
   \<and> \<not> HasPrefix ''solana:mainnet'' ''evm:''
   \<and> SupportsNetwork sample_adapter ''solana:mainnet'' = (False, None)
   \<and> HasPrefix ''evm:abc'' ''evm:'' \<and> ParseInt (drop 4 ''evm:abc'') = Inl ErrSyntax
   \<and> SupportsNetwork sample_adapter ''evm:abc'' = (False, Some ErrSyntax)"
proof -
  have p1: "HasPrefix ''evm:1'' ''evm:''" and p2: "\<not> HasPrefix ''solana:mainnet'' ''evm:''"
    and p3: "HasPrefix ''evm:abc'' ''evm:''"
    by (simp_all add: HasPrefix_def)
  have i1: "ParseInt (drop 4 ''evm:1'') = Inr 1"
    by (simp add: ParseInt_def ParseUint_def is_digit_def maxUint64_def cutoff_int64_def)
  have i3: "ParseInt (drop 4 ''evm:abc'') = Inl ErrSyntax"
    by (simp add: ParseInt_def ParseUint_def is_digit_def)
  have k: "(1::int) \<in> fst ` set drpcNetworkNames" by (simp add: drpcNetworkNames_def)
  from SupportsNetwork_spec [of sample_adapter "''evm:1''"] p1 i1 k
  have a: "fst (SupportsNetwork sample_adapter ''evm:1'')" by blast
  from SupportsNetwork_spec [of sample_adapter "''solana:mainnet''"] p2
  have b: "SupportsNetwork sample_adapter ''solana:mainnet'' = (False, None)" by blast
  from SupportsNetwork_spec [of sample_adapter "''evm:abc''"] p3 i3
  have c: "SupportsNetwork sample_adapter ''evm:abc'' = (False, Some ErrSyntax)" by blast
  from a b c p1 p2 p3 i1 i3 k show ?thesis by blast
qed

theorem getOrCreateClient_unsupported_chain_witness:
  "EvmChainId \<lparr>Id = ''evm:999'', Architecture = ArchitectureEvm, EvmChainId = Inr 999\<rparr> = Inr 999
   \<and> map_of drpcNetworkNames 999 = None
   \<and> Architecture \<lparr>Id = ''evm:999'', Architecture = ArchitectureEvm, EvmChainId = Inr 999\<rparr>
       = ArchitectureEvm
   \<and> clients sample_adapter (Id \<lparr>Id = ''evm:999'', Architecture = ArchitectureEvm, EvmChainId = Inr 999\<rparr>)
       = None
   \<and> getOrCreateClient sample_env sample_adapter
        \<lparr>Id = ''evm:999'', Architecture = ArchitectureEvm, EvmChainId = Inr 999\<rparr>
       = (Inl (ErrUnsupportedChainID 999), sample_adapter)"
proof -
  have m: "map_of drpcNetworkNames 999 = None" by (simp add: drpcNetworkNames_def)
  have n: "clients sample_adapter ''evm:999'' = None" by (simp add: sample_adapter_def)
  from getOrCreateClient_unsupported_chain
    [of "\<lparr>Id = ''evm:999'', Architecture = ArchitectureEvm, EvmChainId = Inr 999\<rparr>" 999
      sample_env sample_adapter, OF _ m] n
  have "snd (getOrCreateClient sample_env sample_adapter
          \<lparr>Id = ''evm:999'', Architecture = ArchitectureEvm, EvmChainId = Inr 999\<rparr>) = sample_adapter
      \<and> fst (getOrCreateClient sample_env sample_adapter
          \<lparr>Id = ''evm:999'', Architecture = ArchitectureEvm, EvmChainId = Inr 999\<rparr>)
        = Inl (ErrUnsupportedChainID 999)"
    by simp
  then have "getOrCreateClient sample_env sample_adapter
        \<lparr>Id = ''evm:999'', Architecture = ArchitectureEvm, EvmChainId = Inr 999\<rparr>
       = (Inl (ErrUnsupportedChainID 999), sample_adapter)"
    by (simp add: prod_eq_iff)
  with m n show ?thesis by simp
qed

text \<open>A single caller: a network that is resolved is served from the map from then on.\<close>

lemma getOrCreateClient_cached:
  "clients c (Id network) = Some client \<Longrightarrow> getOrCreateClient env c network = (Inr client, c)"
  by (simp add: getOrCreateClient_def)

lemma getOrCreateClient_then_cached:
  assumes "getOrCreateClient env c network = (Inr client, c')"
  shows "getOrCreateClient env c' network = (Inr client, c')"
proof (cases "clients c (Id network)")
  case (Some cached)
  with assms show ?thesis by (simp add: getOrCreateClient_def)
next
  case None
  with assms have "clients c' (Id network) = Some client"
    by (auto simp: getOrCreateClient_def Let_def split: sum.splits)
  then show ?thesis by (rule getOrCreateClient_cached)
qed

section \<open>Concurrent callers of getOrCreateClient\<close>

text \<open>
  Where a call of \<open>getOrCreateClient\<close> stands: the statement it runs next, with the local
  variables \<open>client, exists\<close> (an option) where they are set.
\<close>

datatype ('x, 'c) call =
    AtRLock
  | AtLookup
  | AtRUnlock "'c option"
  | AtExists "'c option"
  | AtLock
  | AtRecheck
  | AtNew
  | AtStore 'c
  | AtReturn 'c
  | Returned "'x resolve_error + 'c"

text \<open>
  The state of \<open>c.mu\<close> is the set of its holders: a call holds the read lock between
  \<open>RLock\<close> and \<open>RUnlock\<close>, the write lock between \<open>Lock\<close> and its return, where the
  deferred \<open>Unlock\<close> runs.
\<close>

fun holds_read :: "('x, 'c) call \<Rightarrow> bool" where
  "holds_read AtLookup = True"
| "holds_read (AtRUnlock x) = True"
| "holds_read _ = False"

fun holds_write :: "('x, 'c) call \<Rightarrow> bool" where
  "holds_write AtRecheck = True"
| "holds_write AtNew = True"
| "holds_write (AtStore x) = True"
| "holds_write (AtReturn x) = True"
| "holds_write _ = False"

text \<open>
  The adapter shared by the calls, the number of clients that
  \<open>NewGenericHttpJsonRpcClient\<close> has built so far, and the calls by goroutine.
\<close>

record ('u, 'c, 'x) pool =
  adapter :: "('u, 'c) DrpcHttpJsonRpcClient"
  built :: nat
  calls :: "nat \<Rightarrow> ('x, 'c) call"

text \<open>
  One statement of one call, all calls being for the same network.  \<open>RLock\<close> needs no
  holder of the write lock, \<open>Lock\<close> no holder at all.
\<close>

inductive step ::
  "('u, 'c, 'url, 'x) adapter_env \<Rightarrow> 'x Network \<Rightarrow> ('u, 'c, 'x) pool \<Rightarrow> ('u, 'c, 'x) pool \<Rightarrow> bool"
  for env network
where
  RLock:
    "calls s t = AtRLock \<Longrightarrow> \<forall>u. \<not> holds_write (calls s u)
     \<Longrightarrow> step env network s (s\<lparr>calls := (calls s)(t := AtLookup)\<rparr>)"
| Lookup:
    "calls s t = AtLookup
     \<Longrightarrow> step env network s
           (s\<lparr>calls := (calls s)(t := AtRUnlock (clients (adapter s) (Id network)))\<rparr>)"
| RUnlock:
    "calls s t = AtRUnlock x \<Longrightarrow> step env network s (s\<lparr>calls := (calls s)(t := AtExists x)\<rparr>)"
| Exists:
    "calls s t = AtExists (Some client)
     \<Longrightarrow> step env network s (s\<lparr>calls := (calls s)(t := Returned (Inr client))\<rparr>)"
| NotExists:
    "calls s t = AtExists None \<Longrightarrow> step env network s (s\<lparr>calls := (calls s)(t := AtLock)\<rparr>)"
| Lock:
    "calls s t = AtLock \<Longrightarrow> \<forall>u. \<not> holds_write (calls s u) \<and> \<not> holds_read (calls s u)
     \<Longrightarrow> step env network s (s\<lparr>calls := (calls s)(t := AtRecheck)\<rparr>)"
| RecheckExists:
    "calls s t = AtRecheck \<Longrightarrow> clients (adapter s) (Id network) = Some client
     \<Longrightarrow> step env network s (s\<lparr>calls := (calls s)(t := Returned (Inr client))\<rparr>)"
| RecheckNotExists:
    "calls s t = AtRecheck \<Longrightarrow> clients (adapter s) (Id network) = None
     \<Longrightarrow> step env network s (s\<lparr>calls := (calls s)(t := AtNew)\<rparr>)"
| NewError:
    "calls s t = AtNew \<Longrightarrow> newClient env (adapter s) network = Inl err
     \<Longrightarrow> step env network s (s\<lparr>calls := (calls s)(t := Returned (Inl err))\<rparr>)"
| NewClient:
    "calls s t = AtNew \<Longrightarrow> newClient env (adapter s) network = Inr client
     \<Longrightarrow> step env network s
           (s\<lparr>built := Suc (built s), calls := (calls s)(t := AtStore client)\<rparr>)"
| Store:
    "calls s t = AtStore client
     \<Longrightarrow> step env network s
           (s\<lparr>adapter := (adapter s)\<lparr>clients := (clients (adapter s))(Id network \<mapsto> client)\<rparr>,
              calls := (calls s)(t := AtReturn client)\<rparr>)"
| Return:
    "calls s t = AtReturn client
     \<Longrightarrow> step env network s (s\<lparr>calls := (calls s)(t := Returned (Inr client))\<rparr>)"

text \<open>What holds in every state the calls can reach from a cold adapter.\<close>

definition exclusive :: "('u, 'c, 'x) pool \<Rightarrow> bool" where
  "exclusive s \<longleftrightarrow>
     (\<forall>t u. holds_write (calls s t) \<longrightarrow> holds_write (calls s u) \<or> holds_read (calls s u) \<longrightarrow> u = t)"

definition consistent ::
  "('u, 'c, 'url, 'x) adapter_env \<Rightarrow> 'x Network \<Rightarrow> ('u, 'c, 'x) pool \<Rightarrow> bool" where
  "consistent env network s \<longleftrightarrow>
     built s \<le> 1
     \<and> (built s = 0 \<longrightarrow> clients (adapter s) (Id network) = None)
     \<and> (built s = 1 \<longrightarrow> clients (adapter s) (Id network) \<noteq> None \<or> (\<exists>t x. calls s t = AtStore x))
     \<and> (\<forall>x. clients (adapter s) (Id network) = Some x \<longrightarrow> newClient env (adapter s) network = Inr x)
     \<and> (\<forall>t. calls s t = AtNew \<longrightarrow> built s = 0)
     \<and> (\<forall>t x. calls s t = AtStore x \<longrightarrow>
            built s = 1 \<and> clients (adapter s) (Id network) = None
            \<and> newClient env (adapter s) network = Inr x)
     \<and> (\<forall>t x. calls s t = AtRUnlock (Some x) \<or> calls s t = AtExists (Some x)
               \<or> calls s t = AtReturn x \<or> calls s t = Returned (Inr x)
            \<longrightarrow> clients (adapter s) (Id network) = Some x)
     \<and> (\<forall>t err. calls s t = Returned (Inl err) \<longrightarrow> newClient env (adapter s) network = Inl err)"

text \<open>A cold adapter: no client for the network, none built, no call under way.\<close>

definition cold :: "'x Network \<Rightarrow> ('u, 'c, 'x) pool \<Rightarrow> bool" where
  "cold network s \<longleftrightarrow>
     clients (adapter s) (Id network) = None \<and> built s = 0 \<and> (\<forall>t. calls s t = AtRLock)"

text \<open>The holders of the lock; when there is none, \<open>RLock\<close> and \<open>Lock\<close> go through.\<close>

definition holders :: "('u, 'c, 'x) pool \<Rightarrow> nat set" where
  "holders s = {t. holds_read (calls s t) \<or> holds_write (calls s t)}"

text \<open>
  A call finishes from a state when some run from it brings the call to its return and
  moves no other call.
\<close>

definition finishes ::
  "('u, 'c, 'url, 'x) adapter_env \<Rightarrow> 'x Network \<Rightarrow> nat \<Rightarrow> ('u, 'c, 'x) pool \<Rightarrow> bool" where
  "finishes env network t s \<longleftrightarrow>
     (\<exists>s'. (step env network)\<^sup>*\<^sup>* s s' \<and> (\<exists>r. calls s' t = Returned r)
           \<and> (\<forall>u. u \<noteq> t \<longrightarrow> calls s' u = calls s u))"

text \<open>
  A cold adapter over the stand-ins, and the main network of the registry (chain id 1,
  \<open>ethereum\<close>).
\<close>

definition sample_network :: "string Network" where
  "sample_network = \<lparr>Id = ''evm:1'', Architecture = ArchitectureEvm, EvmChainId = Inr 1\<rparr>"

definition sample_pool :: "(unit, string, string) pool" where
  "sample_pool = \<lparr>adapter = sample_adapter, built = 0, calls = (\<lambda>t. AtRLock)\<rparr>"


section \<open>Properties of concurrent callers\<close>

lemma newClient_clients [simp]:
  "newClient env (c\<lparr>clients := m\<rparr>) network = newClient env c network"
  by (simp add: newClient_def split: sum.splits option.splits)

lemma step_exclusive:
  assumes "step env network s s'" and "exclusive s"
  shows "exclusive s'"
  using assms
  by (cases rule: step.cases) (auto simp: exclusive_def split: if_splits)


text \<open>A step that only moves one call, not from the store and not onto it.\<close>

lemma consistent_move:
  assumes c: "consistent env network s"
    and from_pc: "\<And>x. calls s t \<noteq> AtStore x"
    and to_pc: "\<And>x. pc \<noteq> AtStore x"
    and new: "pc = AtNew \<Longrightarrow> built s = 0"
    and loc: "\<And>x. pc = AtRUnlock (Some x) \<or> pc = AtExists (Some x) \<or> pc = AtReturn x
                \<or> pc = Returned (Inr x) \<Longrightarrow> clients (adapter s) (Id network) = Some x"
    and err: "\<And>e. pc = Returned (Inl e) \<Longrightarrow> newClient env (adapter s) network = Inl e"
  shows "consistent env network (s\<lparr>calls := (calls s)(t := pc)\<rparr>)"
proof -
  let ?s = "s\<lparr>calls := (calls s)(t := pc)\<rparr>"
  have g: "built ?s = built s" "adapter ?s = adapter s" by simp_all
  have k: "\<And>u. calls ?s u = (if u = t then pc else calls s u)" by simp
  have 1: "built ?s \<le> 1" using c by (simp add: consistent_def)
  have 2: "built ?s = 0 \<longrightarrow> clients (adapter ?s) (Id network) = None"
    using c by (simp add: consistent_def)
  have 3: "built ?s = 1 \<longrightarrow> clients (adapter ?s) (Id network) \<noteq> None
             \<or> (\<exists>u x. calls ?s u = AtStore x)"
  proof (intro impI)
    assume "built ?s = 1"
    then have "clients (adapter s) (Id network) \<noteq> None \<or> (\<exists>u x. calls s u = AtStore x)"
      using c by (simp add: consistent_def)
    then show "clients (adapter ?s) (Id network) \<noteq> None \<or> (\<exists>u x. calls ?s u = AtStore x)"
    proof
      assume "clients (adapter s) (Id network) \<noteq> None"
      then show ?thesis by simp
    next
      assume "\<exists>u x. calls s u = AtStore x"
      then obtain u x where u: "calls s u = AtStore x" by blast
      with from_pc have "u \<noteq> t" by auto
      with u have "calls ?s u = AtStore x" by simp
      then show ?thesis by blast
    qed
  qed
  have 4: "\<forall>x. clients (adapter ?s) (Id network) = Some x
             \<longrightarrow> newClient env (adapter ?s) network = Inr x"
    using c by (simp add: consistent_def)
  have 5: "\<forall>u. calls ?s u = AtNew \<longrightarrow> built ?s = 0"
    using c new unfolding consistent_def by auto
  have 6: "\<forall>u x. calls ?s u = AtStore x \<longrightarrow>
            built ?s = 1 \<and> clients (adapter ?s) (Id network) = None
            \<and> newClient env (adapter ?s) network = Inr x"
    using c to_pc unfolding consistent_def by auto
  have 7: "\<forall>u x. calls ?s u = AtRUnlock (Some x) \<or> calls ?s u = AtExists (Some x)
               \<or> calls ?s u = AtReturn x \<or> calls ?s u = Returned (Inr x)
            \<longrightarrow> clients (adapter ?s) (Id network) = Some x"
  proof (intro allI impI)
    fix u x
    assume a: "calls ?s u = AtRUnlock (Some x) \<or> calls ?s u = AtExists (Some x)
               \<or> calls ?s u = AtReturn x \<or> calls ?s u = Returned (Inr x)"
    show "clients (adapter ?s) (Id network) = Some x"
    proof (cases "u = t")
      case True
      with a loc [of x] show ?thesis by simp
    next
      case False
      with a c show ?thesis unfolding consistent_def by auto
    qed
  qed
  have 8: "\<forall>u e. calls ?s u = Returned (Inl e) \<longrightarrow> newClient env (adapter ?s) network = Inl e"
  proof (intro allI impI)
    fix u e
    assume a: "calls ?s u = Returned (Inl e)"
    show "newClient env (adapter ?s) network = Inl e"
    proof (cases "u = t")
      case True
      with a err [of e] show ?thesis by simp
    next
      case False
      with a c show ?thesis unfolding consistent_def by auto
    qed
  qed
  from 1 2 3 4 5 6 7 8 show ?thesis unfolding consistent_def by blast
qed

lemma step_consistent:
  assumes "step env network s s'" and "exclusive s" and "consistent env network s"
  shows "consistent env network s'"
  using assms(1)
proof (cases rule: step.cases)
  case (RLock t)
  show ?thesis
    unfolding RLock(1) by (rule consistent_move [OF assms(3)]) (use RLock assms(3) in \<open>auto simp: consistent_def\<close>)
next
  case (Lookup t)
  show ?thesis
    unfolding Lookup(1) by (rule consistent_move [OF assms(3)]) (use Lookup in auto)
next
  case (RUnlock t x)
  have "\<And>y. x = Some y \<Longrightarrow> clients (adapter s) (Id network) = Some y"
    using assms(3) RUnlock unfolding consistent_def by blast
  then show ?thesis
    unfolding RUnlock(1) by (intro consistent_move [OF assms(3)]) (use RUnlock in auto)
next
  case (Exists t client)
  have "clients (adapter s) (Id network) = Some client"
    using assms(3) Exists unfolding consistent_def by blast
  then show ?thesis
    unfolding Exists(1) by (intro consistent_move [OF assms(3)]) (use Exists in auto)
next
  case (NotExists t)
  show ?thesis
    unfolding NotExists(1) by (rule consistent_move [OF assms(3)]) (use NotExists assms(3) in \<open>auto simp: consistent_def\<close>)
next
  case (Lock t)
  show ?thesis
    unfolding Lock(1) by (rule consistent_move [OF assms(3)]) (use Lock assms(3) in \<open>auto simp: consistent_def\<close>)
next
  case (RecheckExists t client)
  show ?thesis
    unfolding RecheckExists(1) by (rule consistent_move [OF assms(3)]) (use RecheckExists assms(3) in \<open>auto simp: consistent_def\<close>)
next
  case (RecheckNotExists t)
  have "built s = 0"
  proof (rule ccontr)
    assume "built s \<noteq> 0"
    with assms(3) have "built s = 1" by (simp add: consistent_def)
    with assms(3) RecheckNotExists obtain u x where u: "calls s u = AtStore x"
      unfolding consistent_def by auto
    with assms(2) RecheckNotExists have "u = t" by (auto simp: exclusive_def)
    with u RecheckNotExists show False by simp
  qed
  then show ?thesis
    unfolding RecheckNotExists(1)
    by (intro consistent_move [OF assms(3)]) (use RecheckNotExists in auto)
next
  case (NewError t err)
  show ?thesis
    unfolding NewError(1) by (rule consistent_move [OF assms(3)]) (use NewError assms(3) in \<open>auto simp: consistent_def\<close>)
next
  case (NewClient t client)
  from assms(3) NewClient have b: "built s = 0" and c: "clients (adapter s) (Id network) = None"
    unfolding consistent_def by auto
  have only: "\<And>u. holds_write (calls s u) \<Longrightarrow> u = t"
    using assms(2) NewClient by (auto simp: exclusive_def)
  have st: "calls s u \<noteq> AtStore x" for u x
  proof
    assume a: "calls s u = AtStore x"
    then have "holds_write (calls s u)" by simp
    from only [OF this] a NewClient show False by simp
  qed
  have nw: "u \<noteq> t \<Longrightarrow> calls s u \<noteq> AtNew" for u
  proof
    assume "u \<noteq> t" and a: "calls s u = AtNew"
    then have "holds_write (calls s u)" by simp
    from only [OF this] \<open>u \<noteq> t\<close> show False by simp
  qed
  have loc: "\<And>u x. \<not> (calls s u = AtRUnlock (Some x) \<or> calls s u = AtExists (Some x)
               \<or> calls s u = AtReturn x \<or> calls s u = Returned (Inr x))"
    using assms(3) c unfolding consistent_def by auto
  have er: "\<And>u e. calls s u = Returned (Inl e) \<Longrightarrow> newClient env (adapter s) network = Inl e"
    using assms(3) unfolding consistent_def by blast
  show ?thesis
    unfolding consistent_def NewClient(1)
    using b c st nw loc er NewClient(2,3) by auto
next
  case (Store t client)
  have only: "\<And>u. holds_write (calls s u) \<Longrightarrow> u = t"
    using assms(2) Store by (auto simp: exclusive_def)
  have nw: "calls s u \<noteq> AtNew" for u
  proof
    assume a: "calls s u = AtNew"
    then have "holds_write (calls s u)" by simp
    from only [OF this] a Store show False by simp
  qed
  have st: "u \<noteq> t \<Longrightarrow> calls s u \<noteq> AtStore x" for u x
  proof
    assume "u \<noteq> t" and a: "calls s u = AtStore x"
    then have "holds_write (calls s u)" by simp
    from only [OF this] \<open>u \<noteq> t\<close> show False by simp
  qed
  from assms(3) Store have c: "clients (adapter s) (Id network) = None"
    and b: "built s = 1" and nc: "newClient env (adapter s) network = Inr client"
    unfolding consistent_def by auto
  have loc: "\<And>u x. \<not> (calls s u = AtRUnlock (Some x) \<or> calls s u = AtExists (Some x)
               \<or> calls s u = AtReturn x \<or> calls s u = Returned (Inr x))"
    using assms(3) c unfolding consistent_def by auto
  have er: "\<And>u e. calls s u = Returned (Inl e) \<Longrightarrow> newClient env (adapter s) network = Inl e"
    using assms(3) unfolding consistent_def by blast
  show ?thesis
    unfolding consistent_def Store(1)
    using b c nc st nw loc er Store(2) by auto
next
  case (Return t client)
  have "clients (adapter s) (Id network) = Some client"
    using assms(3) Return unfolding consistent_def by blast
  then show ?thesis
    unfolding Return(1) by (intro consistent_move [OF assms(3)]) (use Return in auto)
qed


lemma step_newClient:
  "step env network s s' \<Longrightarrow> newClient env (adapter s') network = newClient env (adapter s) network"
  by (cases rule: step.cases) auto


lemma cold_safe:
  "cold network s \<Longrightarrow> exclusive s \<and> consistent env network s"
  by (simp add: cold_def exclusive_def consistent_def)

lemma reachable_safe:
  assumes "(step env network)\<^sup>*\<^sup>* s0 s" and "exclusive s0" and "consistent env network s0"
  shows "exclusive s \<and> consistent env network s
         \<and> newClient env (adapter s) network = newClient env (adapter s0) network"
  using assms
proof (induction rule: rtranclp_induct)
  case base
  then show ?case by simp
next
  case (step s s')
  then show ?case
    using step_exclusive [of env network s s'] step_consistent [of env network s s']
      step_newClient [of env network s s']
    by simp
qed


text \<open>
  A call that runs alone goes through the statements of \<open>getOrCreateClient\<close> and ends
  with the result and the adapter of the function.
\<close>

lemma solo_run:
  assumes t: "calls s t = AtRLock"
    and free: "\<forall>u. \<not> holds_write (calls s u) \<and> \<not> holds_read (calls s u)"
  shows "\<exists>n. (step env network)\<^sup>*\<^sup>* s
           (s\<lparr>adapter := snd (getOrCreateClient env (adapter s) network), built := n,
              calls := (calls s)(t := Returned (fst (getOrCreateClient env (adapter s) network)))\<rparr>)"
proof -
  let ?at = "\<lambda>pc. s\<lparr>calls := (calls s)(t := pc)\<rparr>"
  let ?m = "clients (adapter s) (Id network)"
  have 1: "step env network s (?at AtLookup)"
    using RLock [of s t env network] t free by simp
  have 2: "step env network (?at AtLookup) (?at (AtRUnlock ?m))"
    using Lookup [of "?at AtLookup" t env network] by simp
  have 3: "step env network (?at (AtRUnlock ?m)) (?at (AtExists ?m))"
    using RUnlock [of "?at (AtRUnlock ?m)" t ?m env network] by simp
  from 1 2 3 have r3: "(step env network)\<^sup>*\<^sup>* s (?at (AtExists ?m))" by simp
  show ?thesis
  proof (cases ?m)
    case (Some client)
    have "step env network (?at (AtExists (Some client))) (?at (Returned (Inr client)))"
      using Exists [of "?at (AtExists (Some client))" t client env network] by simp
    with r3 Some have "(step env network)\<^sup>*\<^sup>* s (?at (Returned (Inr client)))" by simp
    moreover have "getOrCreateClient env (adapter s) network = (Inr client, adapter s)"
      using Some by (simp add: getOrCreateClient_def)
    ultimately have "(step env network)\<^sup>*\<^sup>* s
           (s\<lparr>adapter := snd (getOrCreateClient env (adapter s) network), built := built s,
              calls := (calls s)(t := Returned (fst (getOrCreateClient env (adapter s) network)))\<rparr>)"
      by simp
    then show ?thesis by blast
  next
    case None
    have 4: "step env network (?at (AtExists None)) (?at AtLock)"
      using NotExists [of "?at (AtExists None)" t env network] by simp
    have 5: "step env network (?at AtLock) (?at AtRecheck)"
      using Lock [of "?at AtLock" t env network] free by simp
    have 6: "step env network (?at AtRecheck) (?at AtNew)"
      using RecheckNotExists [of "?at AtRecheck" t network env] None by simp
    from r3 None 4 5 6 have r6: "(step env network)\<^sup>*\<^sup>* s (?at AtNew)" by simp
    show ?thesis
    proof (cases "newClient env (adapter s) network")
      case (Inl err)
      have "step env network (?at AtNew) (?at (Returned (Inl err)))"
        using NewError [of "?at AtNew" t env network err] Inl by simp
      with r6 have "(step env network)\<^sup>*\<^sup>* s (?at (Returned (Inl err)))" by simp
      moreover have "getOrCreateClient env (adapter s) network = (Inl err, adapter s)"
        using None Inl by (simp add: getOrCreateClient_def)
      ultimately have "(step env network)\<^sup>*\<^sup>* s
           (s\<lparr>adapter := snd (getOrCreateClient env (adapter s) network), built := built s,
              calls := (calls s)(t := Returned (fst (getOrCreateClient env (adapter s) network)))\<rparr>)"
        by simp
      then show ?thesis by blast
    next
      case (Inr client)
      let ?c' = "(adapter s)\<lparr>clients := (clients (adapter s))(Id network \<mapsto> client)\<rparr>"
      have 7: "step env network (?at AtNew)
                 (s\<lparr>built := Suc (built s), calls := (calls s)(t := AtStore client)\<rparr>)"
        using NewClient [of "?at AtNew" t env network client] Inr by simp
      have 8: "step env network
                 (s\<lparr>built := Suc (built s), calls := (calls s)(t := AtStore client)\<rparr>)
                 (s\<lparr>built := Suc (built s), adapter := ?c',
                    calls := (calls s)(t := AtReturn client)\<rparr>)"
        using Store [of "s\<lparr>built := Suc (built s), calls := (calls s)(t := AtStore client)\<rparr>"
            t client env network]
        by simp
      have 9: "step env network
                 (s\<lparr>built := Suc (built s), adapter := ?c',
                    calls := (calls s)(t := AtReturn client)\<rparr>)
                 (s\<lparr>built := Suc (built s), adapter := ?c',
                    calls := (calls s)(t := Returned (Inr client))\<rparr>)"
        using Return [of "s\<lparr>built := Suc (built s), adapter := ?c',
                    calls := (calls s)(t := AtReturn client)\<rparr>" t client env network]
        by simp
      from r6 7 8 9 have "(step env network)\<^sup>*\<^sup>* s
           (s\<lparr>built := Suc (built s), adapter := ?c',
              calls := (calls s)(t := Returned (Inr client))\<rparr>)"
        by simp
      moreover have "s\<lparr>built := Suc (built s), adapter := ?c',
              calls := (calls s)(t := Returned (Inr client))\<rparr>
          = s\<lparr>adapter := ?c', built := Suc (built s),
              calls := (calls s)(t := Returned (Inr client))\<rparr>"
        by (cases s) simp
      moreover have "getOrCreateClient env (adapter s) network = (Inr client, ?c')"
        using None Inr by (simp add: getOrCreateClient_def)
      ultimately have "(step env network)\<^sup>*\<^sup>* s
           (s\<lparr>adapter := snd (getOrCreateClient env (adapter s) network), built := Suc (built s),
              calls := (calls s)(t := Returned (fst (getOrCreateClient env (adapter s) network)))\<rparr>)"
        by simp
      then show ?thesis by blast
    qed
  qed
qed


text \<open>
  The race itself: two calls both miss under the read lock, then take the write lock in
  turn; the first builds and stores the client, the second finds it.
\<close>

lemma upd_first: "t \<noteq> u \<Longrightarrow> (f(t := a, u := b))(t := a') = f(t := a', u := b)"
  by (simp add: fun_eq_iff)

lemma race_run:
  assumes cold: "cold network s" and tu: "t \<noteq> u"
    and new: "newClient env (adapter s) network = Inr client"
  shows "(step env network)\<^sup>*\<^sup>* s
           (s\<lparr>built := Suc 0,
              adapter := (adapter s)\<lparr>clients := (clients (adapter s))(Id network \<mapsto> client)\<rparr>,
              calls := (calls s)(t := Returned (Inr client), u := Returned (Inr client))\<rparr>)"
proof -
  let ?st = "\<lambda>a b. s\<lparr>calls := (calls s)(t := a, u := b)\<rparr>"
  let ?c' = "(adapter s)\<lparr>clients := (clients (adapter s))(Id network \<mapsto> client)\<rparr>"
  let ?st1 = "\<lambda>a b. s\<lparr>built := Suc 0, calls := (calls s)(t := a, u := b)\<rparr>"
  let ?st2 = "\<lambda>a b. s\<lparr>built := Suc 0, adapter := ?c', calls := (calls s)(t := a, u := b)\<rparr>"
  from cold have all: "\<And>v. calls s v = AtRLock" and none: "clients (adapter s) (Id network) = None"
    and b0: "built s = 0"
    by (simp_all add: cold_def)
  have s0: "s = ?st AtRLock AtRLock"
    using all by (cases s) (simp add: fun_eq_iff)
  have 1: "step env network (?st AtRLock AtRLock) (?st AtLookup AtRLock)"
    using RLock [of "?st AtRLock AtRLock" t env network] tu all by (simp add: upd_first)
  have 2: "step env network (?st AtLookup AtRLock) (?st (AtRUnlock None) AtRLock)"
    using Lookup [of "?st AtLookup AtRLock" t env network] tu none by (simp add: upd_first)
  have 3: "step env network (?st (AtRUnlock None) AtRLock) (?st (AtExists None) AtRLock)"
    using RUnlock [of "?st (AtRUnlock None) AtRLock" t None env network] tu
    by (simp add: upd_first)
  have 4: "step env network (?st (AtExists None) AtRLock) (?st AtLock AtRLock)"
    using NotExists [of "?st (AtExists None) AtRLock" t env network] tu by (simp add: upd_first)
  have 5: "step env network (?st AtLock AtRLock) (?st AtLock AtLookup)"
    using RLock [of "?st AtLock AtRLock" u env network] tu all by simp
  have 6: "step env network (?st AtLock AtLookup) (?st AtLock (AtRUnlock None))"
    using Lookup [of "?st AtLock AtLookup" u env network] tu none by simp
  have 7: "step env network (?st AtLock (AtRUnlock None)) (?st AtLock (AtExists None))"
    using RUnlock [of "?st AtLock (AtRUnlock None)" u None env network] tu by simp
  have 8: "step env network (?st AtLock (AtExists None)) (?st AtLock AtLock)"
    using NotExists [of "?st AtLock (AtExists None)" u env network] tu by simp
  have 9: "step env network (?st AtLock AtLock) (?st AtRecheck AtLock)"
    using Lock [of "?st AtLock AtLock" t env network] tu all by (simp add: upd_first)
  have 10: "step env network (?st AtRecheck AtLock) (?st AtNew AtLock)"
    using RecheckNotExists [of "?st AtRecheck AtLock" t network env] tu none
    by (simp add: upd_first)
  have 11: "step env network (?st AtNew AtLock) (?st1 (AtStore client) AtLock)"
    using NewClient [of "?st AtNew AtLock" t env network client] tu new b0
    by (simp add: upd_first)
  have 12: "step env network (?st1 (AtStore client) AtLock) (?st2 (AtReturn client) AtLock)"
    using Store [of "?st1 (AtStore client) AtLock" t client env network] tu
    by (simp add: upd_first)
  have 13: "step env network (?st2 (AtReturn client) AtLock) (?st2 (Returned (Inr client)) AtLock)"
    using Return [of "?st2 (AtReturn client) AtLock" t client env network] tu
    by (simp add: upd_first)
  have 14: "step env network (?st2 (Returned (Inr client)) AtLock)
              (?st2 (Returned (Inr client)) AtRecheck)"
    using Lock [of "?st2 (Returned (Inr client)) AtLock" u env network] tu all by simp
  have 15: "step env network (?st2 (Returned (Inr client)) AtRecheck)
              (?st2 (Returned (Inr client)) (Returned (Inr client)))"
    using RecheckExists [of "?st2 (Returned (Inr client)) AtRecheck" u network client env] tu
    by simp
  have "(step env network)\<^sup>*\<^sup>* (?st AtRLock AtRLock)
          (?st2 (Returned (Inr client)) (Returned (Inr client)))"
    using 1 2 3 4 5 6 7 8 9 10 11 12 13 14 15
    by (meson rtranclp.rtrancl_into_rtrancl rtranclp.rtrancl_refl)
  with s0 show ?thesis by simp
qed


text \<open>The calls can always return.\<close>


lemma finishes_Returned: "calls s t = Returned r \<Longrightarrow> finishes env network t s"
  unfolding finishes_def by blast

lemma finishes_step:
  assumes "step env network s s1" and "\<forall>u. u \<noteq> t \<longrightarrow> calls s1 u = calls s u"
    and "finishes env network t s1"
  shows "finishes env network t s"
proof -
  from assms(3) obtain s' r where r: "(step env network)\<^sup>*\<^sup>* s1 s'"
    and d: "calls s' t = Returned r" and o: "\<forall>u. u \<noteq> t \<longrightarrow> calls s' u = calls s1 u"
    unfolding finishes_def by blast
  from assms(1) r have "(step env network)\<^sup>*\<^sup>* s s'" by simp
  moreover from o assms(2) have "\<forall>u. u \<noteq> t \<longrightarrow> calls s' u = calls s u" by simp
  ultimately show ?thesis using d unfolding finishes_def by blast
qed

lemma finishes_AtReturn:
  assumes "calls s t = AtReturn client"
  shows "finishes env network t s"
  by (rule finishes_step [OF Return [OF assms]]) (simp_all add: finishes_Returned)

lemma finishes_AtStore:
  assumes "calls s t = AtStore client"
  shows "finishes env network t s"
  by (rule finishes_step [OF Store [OF assms]]) (simp_all add: finishes_AtReturn)

lemma finishes_AtNew:
  assumes "calls s t = AtNew"
  shows "finishes env network t s"
proof (cases "newClient env (adapter s) network")
  case (Inl err)
  show ?thesis
    by (rule finishes_step [OF NewError [OF assms Inl]]) (simp_all add: finishes_Returned)
next
  case (Inr client)
  show ?thesis
    by (rule finishes_step [OF NewClient [OF assms Inr]]) (simp_all add: finishes_AtStore)
qed

lemma finishes_AtRecheck:
  assumes "calls s t = AtRecheck"
  shows "finishes env network t s"
proof (cases "clients (adapter s) (Id network)")
  case None
  show ?thesis
    by (rule finishes_step [OF RecheckNotExists [OF assms None]]) (simp_all add: finishes_AtNew)
next
  case (Some client)
  show ?thesis
    by (rule finishes_step [OF RecheckExists [OF assms Some]]) (simp_all add: finishes_Returned)
qed

lemma finishes_holds_write:
  "holds_write (calls s t) \<Longrightarrow> finishes env network t s"
  by (cases "calls s t")
    (simp_all add: finishes_AtRecheck finishes_AtNew finishes_AtStore finishes_AtReturn)


lemma finishes_AtLock:
  assumes "calls s t = AtLock" and "holders s = {}"
  shows "finishes env network t s"
proof -
  from assms(2) have "\<forall>u. \<not> holds_write (calls s u) \<and> \<not> holds_read (calls s u)"
    by (auto simp: holders_def)
  from Lock [OF assms(1) this] show ?thesis
    by (rule finishes_step) (simp_all add: finishes_AtRecheck)
qed

lemma finishes_AtExists:
  assumes "calls s t = AtExists x" and "holders s = {}"
  shows "finishes env network t s"
proof (cases x)
  case None
  with assms(1) have a: "calls s t = AtExists None" by simp
  have "holders (s\<lparr>calls := (calls s)(t := AtLock)\<rparr>) = {}"
    using assms(2) by (auto simp: holders_def)
  then show ?thesis
    by (intro finishes_step [OF NotExists [OF a]]) (simp_all add: finishes_AtLock)
next
  case (Some client)
  with assms(1) have a: "calls s t = AtExists (Some client)" by simp
  show ?thesis
    by (rule finishes_step [OF Exists [OF a]]) (simp_all add: finishes_Returned)
qed

lemma finishes_AtRLock:
  assumes "calls s t = AtRLock" and "holders s = {}"
  shows "finishes env network t s"
proof -
  let ?at = "\<lambda>pc. s\<lparr>calls := (calls s)(t := pc)\<rparr>"
  let ?m = "clients (adapter s) (Id network)"
  from assms(2) have g: "\<forall>u. \<not> holds_write (calls s u)" by (auto simp: holders_def)
  have 1: "step env network s (?at AtLookup)" using RLock [OF assms(1) g] .
  have 2: "step env network (?at AtLookup) (?at (AtRUnlock ?m))"
    using Lookup [of "?at AtLookup" t env network] by simp
  have 3: "step env network (?at (AtRUnlock ?m)) (?at (AtExists ?m))"
    using RUnlock [of "?at (AtRUnlock ?m)" t ?m env network] by simp
  have h: "holders (?at (AtExists ?m)) = {}" using assms(2) by (auto simp: holders_def)
  have "finishes env network t (?at (AtExists ?m))"
    by (rule finishes_AtExists [OF _ h]) simp
  then have "finishes env network t (?at (AtRUnlock ?m))"
    by (intro finishes_step [OF 3]) simp_all
  then have "finishes env network t (?at AtLookup)"
    by (intro finishes_step [OF 2]) simp_all
  then show ?thesis
    by (intro finishes_step [OF 1]) simp_all
qed

lemma finishes_free:
  assumes "holders s = {}"
  shows "finishes env network t s"
proof (cases "calls s t")
  case AtRLock
  then show ?thesis using assms by (rule finishes_AtRLock)
next
  case AtLookup
  then have "t \<in> holders s" by (simp add: holders_def)
  with assms show ?thesis by simp
next
  case (AtRUnlock x)
  then have "t \<in> holders s" by (simp add: holders_def)
  with assms show ?thesis by simp
next
  case (AtExists x)
  then show ?thesis using assms by (rule finishes_AtExists)
next
  case AtLock
  then show ?thesis using assms by (rule finishes_AtLock)
next
  case AtRecheck
  then show ?thesis by (rule finishes_AtRecheck)
next
  case AtNew
  then show ?thesis by (rule finishes_AtNew)
next
  case (AtStore x)
  then show ?thesis by (rule finishes_AtStore)
next
  case (AtReturn x)
  then show ?thesis by (rule finishes_AtReturn)
next
  case (Returned r)
  then show ?thesis by (rule finishes_Returned)
qed


text \<open>A call that has returned stays returned, and only finitely many calls hold the lock.\<close>

lemma step_Returned:
  "step env network s s' \<Longrightarrow> calls s t = Returned r \<Longrightarrow> calls s' t = Returned r"
  by (cases rule: step.cases) auto

lemma steps_Returned:
  "(step env network)\<^sup>*\<^sup>* s s' \<Longrightarrow> calls s t = Returned r \<Longrightarrow> calls s' t = Returned r"
  by (induction rule: rtranclp_induct) (auto dest: step_Returned)

lemma holders_upd:
  "calls s' = (calls s)(t := pc) \<Longrightarrow> holders s' \<subseteq> insert t (holders s)"
  by (auto simp: holders_def split: if_splits)

lemma step_holders:
  assumes "step env network s s'" and "finite (holders s)"
  shows "finite (holders s')"
proof -
  from assms(1) obtain t pc where "calls s' = (calls s)(t := pc)"
    by (cases rule: step.cases) auto
  then have "holders s' \<subseteq> insert t (holders s)" by (rule holders_upd)
  with assms(2) show ?thesis by (meson finite_insert finite_subset)
qed

lemma steps_holders:
  "(step env network)\<^sup>*\<^sup>* s s' \<Longrightarrow> finite (holders s) \<Longrightarrow> finite (holders s')"
  by (induction rule: rtranclp_induct) (auto dest: step_holders)

text \<open>A holder of the lock can always release it, whatever the others do.\<close>

lemma releases:
  assumes "t \<in> holders s"
  shows "\<exists>s'. (step env network)\<^sup>*\<^sup>* s s' \<and> holders s' = holders s - {t}"
proof (cases "holds_write (calls s t)")
  case True
  then have "finishes env network t s" by (rule finishes_holds_write)
  then obtain s' r where r: "(step env network)\<^sup>*\<^sup>* s s'"
    and d: "calls s' t = Returned r" and o: "\<forall>u. u \<noteq> t \<longrightarrow> calls s' u = calls s u"
    unfolding finishes_def by blast
  have "holders s' = holders s - {t}"
  proof (rule set_eqI)
    fix u show "u \<in> holders s' \<longleftrightarrow> u \<in> holders s - {t}"
      using d o by (cases "u = t") (simp_all add: holders_def)
  qed
  with r show ?thesis by blast
next
  case False
  with assms have rd: "holds_read (calls s t)" by (simp add: holders_def)
  let ?at = "\<lambda>s pc. s\<lparr>calls := (calls s)(t := pc)\<rparr>"
  have h: "holders (?at s (AtExists x)) = holders s - {t}" for x
    by (auto simp: holders_def)
  from rd show ?thesis
  proof (cases "calls s t")
    case AtLookup
    let ?m = "clients (adapter s) (Id network)"
    have 1: "step env network s (?at s (AtRUnlock ?m))" using Lookup [OF AtLookup] .
    have 2: "step env network (?at s (AtRUnlock ?m)) (?at s (AtExists ?m))"
      using RUnlock [of "?at s (AtRUnlock ?m)" t ?m env network] by simp
    from 1 2 have "(step env network)\<^sup>*\<^sup>* s (?at s (AtExists ?m))" by simp
    with h show ?thesis by blast
  next
    case (AtRUnlock x)
    have "step env network s (?at s (AtExists x))" using RUnlock [OF AtRUnlock] .
    then have "(step env network)\<^sup>*\<^sup>* s (?at s (AtExists x))" by simp
    with h show ?thesis by blast
  qed simp_all
qed

lemma releases_all:
  assumes "finite (holders s)"
  shows "\<exists>s'. (step env network)\<^sup>*\<^sup>* s s' \<and> holders s' = {}"
  using assms
proof (induction "card (holders s)" arbitrary: s)
  case 0
  then have "holders s = {}" by simp
  then show ?case by blast
next
  case (Suc n)
  then have "holders s \<noteq> {}" by auto
  then obtain t where t: "t \<in> holders s" by blast
  from releases [OF t] obtain s1 where r1: "(step env network)\<^sup>*\<^sup>* s s1"
    and h1: "holders s1 = holders s - {t}" by blast
  from Suc.hyps(2) Suc.prems t h1 have "n = card (holders s1)" by simp
  moreover from Suc.prems h1 have "finite (holders s1)" by simp
  ultimately obtain s' where "(step env network)\<^sup>*\<^sup>* s1 s'" and "holders s' = {}"
    using Suc.hyps(1) by blast
  with r1 show ?case by (meson rtranclp_trans)
qed

text \<open>So every finite set of calls can be brought to return from any state that is reached.\<close>

lemma all_return:
  assumes "finite T" and "finite (holders s)"
  shows "\<exists>s'. (step env network)\<^sup>*\<^sup>* s s' \<and> (\<forall>t\<in>T. \<exists>r. calls s' t = Returned r)"
  using assms
proof (induction T)
  case empty
  then show ?case by blast
next
  case (insert t T)
  then obtain s1 where r1: "(step env network)\<^sup>*\<^sup>* s s1"
    and d1: "\<forall>u\<in>T. \<exists>r. calls s1 u = Returned r" by blast
  from steps_holders [OF r1 insert.prems] releases_all
  obtain s2 where r2: "(step env network)\<^sup>*\<^sup>* s1 s2" and h2: "holders s2 = {}" by blast
  from finishes_free [OF h2] obtain s3 r where r3: "(step env network)\<^sup>*\<^sup>* s2 s3"
    and d3: "calls s3 t = Returned r"
    unfolding finishes_def by blast
  have "(step env network)\<^sup>*\<^sup>* s s3" using r1 r2 r3 by (meson rtranclp_trans)
  moreover have "\<forall>u\<in>insert t T. \<exists>r. calls s3 u = Returned r"
  proof
    fix u assume "u \<in> insert t T"
    then show "\<exists>r. calls s3 u = Returned r"
    proof
      assume "u = t" with d3 show ?thesis by blast
    next
      assume "u \<in> T"
      with d1 obtain r' where "calls s1 u = Returned r'" by blast
      then have "calls s3 u = Returned r'"
        using r2 r3 by (meson steps_Returned)
      then show ?thesis by blast
    qed
  qed
  ultimately show ?case by blast
qed

lemma cold_holders: "cold network s \<Longrightarrow> holders s = {}"
  by (simp add: cold_def holders_def)


section \<open>Any number of calls for one network\<close>

text \<open>
  Claim C9.  Calls of \<open>getOrCreateClient\<close> for one network start on an adapter with no
  client for it, and their statements interleave in any way the lock allows.  Then in
  every state they reach: at most one client has been built; a call that has returned a
  client returned the one stored under the network id, and exactly one has been built by
  then; any two calls that have returned clients returned the same one; a call has
  returned an error only if building the client fails on this adapter; and any finite
  number of the calls can still be brought to return.
\<close>

theorem single_instance:
  assumes "cold network s0" and "(step env network)\<^sup>*\<^sup>* s0 s"
  shows "built s \<le> 1
         \<and> (\<forall>t client. calls s t = Returned (Inr client)
               \<longrightarrow> built s = 1 \<and> clients (adapter s) (Id network) = Some client)
         \<and> (\<forall>t u client client'. calls s t = Returned (Inr client)
               \<and> calls s u = Returned (Inr client') \<longrightarrow> client' = client)
         \<and> (\<forall>t err. calls s t = Returned (Inl err)
               \<longrightarrow> newClient env (adapter s0) network = Inl err)
         \<and> (\<forall>T. finite T
               \<longrightarrow> (\<exists>s'. (step env network)\<^sup>*\<^sup>* s s' \<and> (\<forall>t\<in>T. \<exists>r. calls s' t = Returned r)))"
proof -
  from cold_safe [OF assms(1)] reachable_safe [OF assms(2)]
  have c: "consistent env network s"
    and n: "newClient env (adapter s) network = newClient env (adapter s0) network"
    by blast+
  have m: "clients (adapter s) (Id network) = Some client"
    if "calls s t = Returned (Inr client)" for t client
    using c that unfolding consistent_def by blast
  have b: "built s = 1" if "clients (adapter s) (Id network) = Some client" for client
  proof -
    from c that have "built s \<noteq> 0" unfolding consistent_def by auto
    moreover from c have "built s \<le> 1" unfolding consistent_def by blast
    ultimately show ?thesis by simp
  qed
  have e: "newClient env (adapter s0) network = Inl err"
    if "calls s t = Returned (Inl err)" for t err
    using c n that unfolding consistent_def by metis
  from cold_holders [OF assms(1)] have "finite (holders s0)" by simp
  with assms(2) have f: "finite (holders s)" by (rule steps_holders)
  from c have "built s \<le> 1" unfolding consistent_def by blast
  moreover have "\<forall>t client. calls s t = Returned (Inr client)
               \<longrightarrow> built s = 1 \<and> clients (adapter s) (Id network) = Some client"
    using m b by blast
  moreover have "\<forall>t u client client'. calls s t = Returned (Inr client)
               \<and> calls s u = Returned (Inr client') \<longrightarrow> client' = client"
  proof (intro allI impI)
    fix t u client client'
    assume a: "calls s t = Returned (Inr client) \<and> calls s u = Returned (Inr client')"
    from a m [of t client] m [of u client'] show "client' = client" by simp
  qed
  moreover have "\<forall>t err. calls s t = Returned (Inl err)
               \<longrightarrow> newClient env (adapter s0) network = Inl err"
    using e by blast
  moreover have "\<forall>T. finite T
               \<longrightarrow> (\<exists>s'. (step env network)\<^sup>*\<^sup>* s s' \<and> (\<forall>t\<in>T. \<exists>r. calls s' t = Returned r))"
    using all_return [OF _ f] by blast
  ultimately show ?thesis by blast
qed

theorem single_instance_witness:
  "cold sample_network sample_pool
   \<and> (step sample_env sample_network)\<^sup>*\<^sup>* sample_pool
        (sample_pool\<lparr>built := 1,
           adapter := sample_adapter
             \<lparr>clients := [''evm:1'' \<mapsto> ''https://lb.drpc.org/ogrpc?network=ethereum&dkey=key'']\<rparr>,
           calls := (\<lambda>t. AtRLock)
             (0 := Returned (Inr ''https://lb.drpc.org/ogrpc?network=ethereum&dkey=key''),
              1 := Returned (Inr ''https://lb.drpc.org/ogrpc?network=ethereum&dkey=key''))\<rparr>)
   \<and> (\<exists>s. (step sample_env sample_network)\<^sup>*\<^sup>* sample_pool s
          \<and> (\<exists>r. calls s 0 = Returned r) \<and> (\<exists>r. calls s 1 = Returned r)
          \<and> (\<exists>r. calls s 2 = Returned r)
          \<and> built s = 1
          \<and> clients (adapter s) ''evm:1''
              = Some ''https://lb.drpc.org/ogrpc?network=ethereum&dkey=key'')"
proof -
  let ?client = "''https://lb.drpc.org/ogrpc?network=ethereum&dkey=key''"
  let ?s = "sample_pool\<lparr>built := 1,
           adapter := sample_adapter\<lparr>clients := [''evm:1'' \<mapsto> ?client]\<rparr>,
           calls := (\<lambda>t. AtRLock)(0 := Returned (Inr ?client), 1 := Returned (Inr ?client))\<rparr>"
  have c: "cold sample_network sample_pool"
    by (simp add: cold_def sample_network_def sample_pool_def sample_adapter_def)
  have n: "newClient sample_env (adapter sample_pool) sample_network = Inr ?client"
    by (simp add: newClient_def sample_network_def sample_pool_def sample_adapter_def
        sample_env_def drpcNetworkNames_def)
  have i: "Id sample_network = ''evm:1''" by (simp add: sample_network_def)
  have e: "sample_pool\<lparr>built := Suc 0,
         adapter := (adapter sample_pool)
           \<lparr>clients := (clients (adapter sample_pool))(Id sample_network \<mapsto> ?client)\<rparr>,
         calls := (calls sample_pool)(0 := Returned (Inr ?client), 1 := Returned (Inr ?client))\<rparr>
       = ?s"
    unfolding i by (simp add: sample_pool_def sample_adapter_def)
  have "(0::nat) \<noteq> 1" by simp
  from race_run [OF c this n]
  have r: "(step sample_env sample_network)\<^sup>*\<^sup>* sample_pool ?s"
    unfolding e .
  note safe = single_instance [OF c]
  note later = safe [OF r, THEN conjunct2, THEN conjunct2, THEN conjunct2, THEN conjunct2,
      rule_format, of "{0, 1, 2}"]
  have "finite {0, 1, 2::nat}" by simp
  from later [OF this] obtain s' where r': "(step sample_env sample_network)\<^sup>*\<^sup>* ?s s'"
    and d: "\<forall>t\<in>{0, 1, 2}. \<exists>r. calls s' t = Returned r"
    by blast
  from d have d0: "\<exists>r. calls s' 0 = Returned r" and d1: "\<exists>r. calls s' 1 = Returned r"
    and d2: "\<exists>r. calls s' 2 = Returned r"
    by simp_all
  from r r' have all: "(step sample_env sample_network)\<^sup>*\<^sup>* sample_pool s'"
    by (rule rtranclp_trans)
  have 0: "calls s' 0 = Returned (Inr ?client)"
    by (rule steps_Returned [OF r']) simp
  from safe [OF all, THEN conjunct2, THEN conjunct1, rule_format, OF 0]
  have "built s' = 1 \<and> clients (adapter s') ''evm:1'' = Some ?client"
    unfolding i .
  with all d0 d1 d2 have "\<exists>s. (step sample_env sample_network)\<^sup>*\<^sup>* sample_pool s
          \<and> (\<exists>r. calls s 0 = Returned r) \<and> (\<exists>r. calls s 1 = Returned r)
          \<and> (\<exists>r. calls s 2 = Returned r)
          \<and> built s = 1 \<and> clients (adapter s) ''evm:1'' = Some ?client"
    by (intro exI [of _ s'] conjI) simp_all
  with c r show ?thesis by (intro conjI)
qed

end
